theory Spec2Isabelle
  imports Complex_Main "HOL-Library.Sublist"
begin

section \<open>Python strings\<close>

text \<open>
  Python \<open>str\<close> values are modelled as \<^typ>\<open>string\<close>; the model covers ASCII text.
  \<open>is_space\<close> is \<open>str.isspace\<close> on one ASCII character (tab, line feed, vertical tab,
  form feed, carriage return, the four separators 0x1c..0x1f and the space); it is also
  the class \<open>\s\<close> of the \<open>re\<close> module on \<open>str\<close> patterns.
\<close>

definition is_space :: "char \<Rightarrow> bool" where
  "is_space c = (c \<in> set [CHR 0x09, CHR 0x0A, CHR 0x0B, CHR 0x0C, CHR 0x0D,
                           CHR 0x1C, CHR 0x1D, CHR 0x1E, CHR 0x1F, CHR 0x20])"

text \<open>\<open>str.strip()\<close>: leading and trailing whitespace removed.\<close>

definition strip :: "string \<Rightarrow> string" where
  "strip s = rev (dropWhile is_space (rev (dropWhile is_space s)))"

text \<open>\<open>str.upper()\<close> and \<open>str.lower()\<close> on ASCII letters; other characters are kept.\<close>

definition upper_char :: "char \<Rightarrow> char" where
  "upper_char c =
     (if 97 \<le> (of_char c :: nat) \<and> (of_char c :: nat) \<le> 122
      then char_of ((of_char c :: nat) - 32) else c)"

definition lower_char :: "char \<Rightarrow> char" where
  "lower_char c =
     (if 65 \<le> (of_char c :: nat) \<and> (of_char c :: nat) \<le> 90
      then char_of ((of_char c :: nat) + 32) else c)"

definition upper :: "string \<Rightarrow> string" where
  "upper s = map upper_char s"

definition lower :: "string \<Rightarrow> string" where
  "lower s = map lower_char s"

text \<open>\<open>a in b\<close> on two strings is the contiguous-substring test \<^const>\<open>sublist\<close>.\<close>

section \<open>JSON values and dictionaries\<close>

text \<open>
  What \<open>json.loads\<close> returns: \<open>None\<close>, a bool, an int, a float, a \<open>str\<close>, a list or a
  \<open>dict\<close> with string keys. A \<open>dict\<close> is an association list in insertion order; lookup
  is \<^const>\<open>map_of\<close>. A float is given by its value.
\<close>

datatype json =
    JNull
  | JBool bool
  | JInt int
  | JFloat real
  | JStr string
  | JList "json list"
  | JObj "(string \<times> json) list"

type_synonym 'v dict = "(string \<times> 'v) list"

text \<open>\<open>k in d\<close> for a dict.\<close>

definition dict_has :: "'v dict \<Rightarrow> string \<Rightarrow> bool" where
  "dict_has d k = (map_of d k \<noteq> None)"

text \<open>\<open>d[k] = v\<close>: an existing key keeps its position, a new key is appended.\<close>

fun dict_set :: "string \<Rightarrow> 'v \<Rightarrow> 'v dict \<Rightarrow> 'v dict" where
  "dict_set k v [] = [(k, v)]"
| "dict_set k v ((k', v') # d) =
     (if k' = k then (k, v) # d else (k', v') # dict_set k v d)"

datatype py_error =
    TypeError
  | IndexError
  | ValueError string
  | OSError

text \<open>
  \<open>field in data\<close> where \<open>data\<close> is any JSON value: key membership for a dict, element
  membership for a list, substring test for a string, \<open>TypeError\<close> otherwise.
\<close>

fun py_in :: "string \<Rightarrow> json \<Rightarrow> py_error + bool" where
  "py_in k (JObj d) = Inr (dict_has d k)"
| "py_in k (JList xs) = Inr (JStr k \<in> set xs)"
| "py_in k (JStr s) = Inr (sublist k s)"
| "py_in k _ = Inl TypeError"

text \<open>\<open>data[field] = value\<close> with a string key: only a dict supports it.\<close>

fun py_setitem :: "json \<Rightarrow> string \<Rightarrow> json \<Rightarrow> py_error + json" where
  "py_setitem (JObj d) k v = Inr (JObj (dict_set k v d))"
| "py_setitem _ k v = Inl TypeError"

section \<open>schemas.py\<close>

subsection \<open>MedicalSummaryFields and SentimentIntentFields\<close>

definition medical_default :: "json dict" where
  "medical_default =
     [(''Patient_Name'', JStr ''Unknown''),
      (''Symptoms'', JList []),
      (''Diagnosis'', JStr ''Unknown''),
      (''Treatment'', JList []),
      (''Current_Status'', JStr ''Unknown''),
      (''Prognosis'', JStr ''Unknown'')]"

definition sentiment_default :: "json dict" where
  "sentiment_default =
     [(''Sentiment'', JStr ''Neutral''),
      (''Intent'', JStr ''Unknown'')]"

text \<open>
  The loop shared by both flat validators:
  \<^verbatim>\<open>for field, default_value in default.items():
      if field not in data:
          data[field] = default_value
  return data\<close>
\<close>

fun fill_missing :: "json dict \<Rightarrow> json \<Rightarrow> py_error + json" where
  "fill_missing [] data = Inr data"
| "fill_missing ((field, default_value) # rest) data =
     (case py_in field data of
        Inl e \<Rightarrow> Inl e
      | Inr True \<Rightarrow> fill_missing rest data
      | Inr False \<Rightarrow>
          (case py_setitem data field default_value of
             Inl e \<Rightarrow> Inl e
           | Inr data' \<Rightarrow> fill_missing rest data'))"

definition medical_validate :: "json \<Rightarrow> py_error + json" where
  "medical_validate data = fill_missing medical_default data"


subsection \<open>SOAPFields\<close>

definition soap_default :: "(string \<times> json dict) list" where
  "soap_default =
     [(''Subjective'',
         [(''Chief_Complaint'', JStr ''Not documented''),
          (''History_of_Present_Illness'', JStr ''Not documented'')]),
      (''Objective'',
         [(''Physical_Exam'', JStr ''Not documented''),
          (''Observations'', JStr ''Not documented'')]),
      (''Assessment'',
         [(''Diagnosis'', JStr ''Not documented''),
          (''Severity'', JStr ''Not documented'')]),
      (''Plan'',
         [(''Treatment'', JStr ''Not documented''),
          (''Follow-Up'', JStr ''Not documented'')])]"

text \<open>Truth value of a JSON value (\<open>not v\<close> is its negation).\<close>

fun truthy :: "json \<Rightarrow> bool" where
  "truthy JNull = False"
| "truthy (JBool b) = b"
| "truthy (JInt i) = (i \<noteq> 0)"
| "truthy (JFloat x) = (x \<noteq> 0)"
| "truthy (JStr s) = (s \<noteq> [])"
| "truthy (JList xs) = (xs \<noteq> [])"
| "truthy (JObj d) = (d \<noteq> [])"

text \<open>
  \<open>str(v).strip() == ""\<close>. For a string \<open>str(v)\<close> is \<open>v\<close>; for every other JSON value it
  is a representation that holds a visible character (\<open>None\<close>, \<open>True\<close>, \<open>0\<close>, \<open>[]\<close>, \<open>{}\<close>,
  ...), so the test fails.
\<close>

fun str_blank :: "json \<Rightarrow> bool" where
  "str_blank (JStr s) = (strip s = [])"
| "str_blank _ = False"

text \<open>
  One iteration of the inner loop, on the section's own dict:
  \<^verbatim>\<open>if subfield not in data[section] or not data[section][subfield]
        or str(data[section][subfield]).strip() == "":
      data[section][subfield] = default_value\<close>
\<close>

definition soap_subfield :: "string \<times> json \<Rightarrow> json dict \<Rightarrow> json dict" where
  "soap_subfield p sec =
     (case map_of sec (fst p) of
        None \<Rightarrow> dict_set (fst p) (snd p) sec
      | Some v \<Rightarrow>
          if \<not> truthy v \<or> str_blank v then dict_set (fst p) (snd p) sec else sec)"

text \<open>
  One iteration of the outer loop on a dict \<open>data\<close>: a section that is missing or is not
  a dict is replaced by the default section; otherwise the section is updated in place.
\<close>

definition soap_section :: "string \<times> json dict \<Rightarrow> json dict \<Rightarrow> json dict" where
  "soap_section p d =
     (case map_of d (fst p) of
        Some (JObj sec) \<Rightarrow> dict_set (fst p) (JObj (fold soap_subfield (snd p) sec)) d
      | _ \<Rightarrow> dict_set (fst p) (JObj (snd p)) d)"

text \<open>
  \<open>SOAPFields.validate\<close>. On a value that is not a dict the first iteration raises
  \<open>TypeError\<close> on every path: \<open>in\<close> is not defined on numbers, booleans and \<open>None\<close>; on a
  list or a string either \<open>data[section]\<close> is read or \<open>data[section] = ...\<close> is
  assigned with a string index.
\<close>

fun soap_validate :: "json \<Rightarrow> py_error + json" where
  "soap_validate (JObj d) = Inr (JObj (fold soap_section soap_default d))"
| "soap_validate _ = Inl TypeError"

section \<open>Regular expressions (the \<open>re\<close> module)\<close>

text \<open>
  Compiled patterns are syntax trees. \<open>r+\<close> is \<open>Seq r (Star r)\<close>; a group only
  brackets, so it has no constructor. \<open>Bnd\<close> is \<open>\b\<close>.
\<close>

datatype regex =
    Eps
  | Lit char
  | Cls "char list"
  | Seq regex regex
  | Alt regex regex
  | Opt regex
  | Star regex
  | Bnd

text \<open>The literal string \<open>s\<close> as a pattern.\<close>

fun lits :: "string \<Rightarrow> regex" where
  "lits [] = Eps"
| "lits [c] = Lit c"
| "lits (c # s) = Seq (Lit c) (lits s)"

text \<open>The class \<open>\s\<close>.\<close>

definition space_chars :: "char list" where
  "space_chars = [CHR 0x09, CHR 0x0A, CHR 0x0B, CHR 0x0C, CHR 0x0D,
                  CHR 0x1C, CHR 0x1D, CHR 0x1E, CHR 0x1F, CHR 0x20]"

text \<open>The class \<open>\w\<close>: letters, digits and the underscore.\<close>

definition is_word :: "char \<Rightarrow> bool" where
  "is_word c =
     (let n = (of_char c :: nat)
      in (48 \<le> n \<and> n \<le> 57) \<or> (65 \<le> n \<and> n \<le> 90) \<or> n = 95 \<or> (97 \<le> n \<and> n \<le> 122))"

text \<open>Comparison of a pattern character with a text character; \<open>ic\<close> is \<open>re.IGNORECASE\<close>.\<close>

definition ch_eq :: "bool \<Rightarrow> char \<Rightarrow> char \<Rightarrow> bool" where
  "ch_eq ic c d = (if ic then lower_char c = lower_char d else c = d)"

text \<open>
  A position in the subject is the character before it (if any) and the text from it on.
  \<open>at_boundary\<close> is the test of \<open>\b\<close>: exactly one side of the position is a word
  character.
\<close>

type_synonym pos = "char option \<times> string"

definition at_boundary :: "pos \<Rightarrow> bool" where
  "at_boundary st =
     ((case fst st of None \<Rightarrow> False | Some c \<Rightarrow> is_word c)
      \<noteq> (case snd st of [] \<Rightarrow> False | d # _ \<Rightarrow> is_word d))"

text \<open>
  The backtracking matcher: all positions at which a match of \<open>r\<close> starting at \<open>st\<close>
  can end, in the order in which backtracking tries them (left alternative first,
  quantifiers greedy). An iteration of a star that consumes nothing is not repeated.
\<close>

function rmatch :: "bool \<Rightarrow> regex \<Rightarrow> pos \<Rightarrow> pos list" where
  "rmatch ic Eps st = [st]"
| "rmatch ic (Lit c) st =
     (case snd st of
        [] \<Rightarrow> []
      | d # s \<Rightarrow> if ch_eq ic c d then [(Some d, s)] else [])"
| "rmatch ic (Cls cs) st =
     (case snd st of
        [] \<Rightarrow> []
      | d # s \<Rightarrow> if list_ex (\<lambda>c. ch_eq ic c d) cs then [(Some d, s)] else [])"
| "rmatch ic (Seq r1 r2) st = concat (map (rmatch ic r2) (rmatch ic r1 st))"
| "rmatch ic (Alt r1 r2) st = rmatch ic r1 st @ rmatch ic r2 st"
| "rmatch ic (Opt r) st = rmatch ic r st @ [st]"
| "rmatch ic (Star r) st =
     concat (map (rmatch ic (Star r))
                 (filter (\<lambda>st'. length (snd st') < length (snd st)) (rmatch ic r st)))
     @ [st]"
| "rmatch ic Bnd st = (if at_boundary st then [st] else [])"
  by pat_completeness auto
termination
  by (relation "measures [\<lambda>(ic, r, st). size r, \<lambda>(ic, r, st). length (snd st)]") auto

text \<open>\<open>pattern.match(line)\<close> as a truth value: some match starts at the beginning.\<close>

definition re_match :: "bool \<Rightarrow> regex \<Rightarrow> string \<Rightarrow> bool" where
  "re_match ic r line = (rmatch ic r (None, line) \<noteq> [])"

text \<open>
  The match the engine reports at a position: the first in backtracking order; when
  \<open>must_advance\<close> is set, an empty match is rejected and backtracking goes on.
\<close>

definition first_match :: "bool \<Rightarrow> regex \<Rightarrow> bool \<Rightarrow> pos \<Rightarrow> pos option" where
  "first_match ic r must_advance st =
     find (\<lambda>st'. \<not> must_advance \<or> length (snd st') < length (snd st)) (rmatch ic r st)"

declare rmatch.simps(7) [simp del]

text \<open>A match never ends before its start: the remaining text only gets shorter.\<close>

lemma rmatch_length:
  "st' \<in> set (rmatch ic r st) \<Longrightarrow> length (snd st') \<le> length (snd st)"
proof (induction ic r st arbitrary: st' rule: rmatch.induct)
  case (1 ic st)
  then show ?case by simp
next
  case (2 ic c st)
  then show ?case by (cases "snd st") (auto split: if_splits)
next
  case (3 ic cs st)
  then show ?case by (cases "snd st") (auto split: if_splits)
next
  case (4 ic r1 r2 st)
  from "4.prems" obtain m where m: "m \<in> set (rmatch ic r1 st)" "st' \<in> set (rmatch ic r2 m)"
    by auto
  from "4.IH"(1)[OF m(1)] "4.IH"(2)[OF m(1) m(2)] show ?case by simp
next
  case (5 ic r1 r2 st)
  then show ?case by (cases st') auto
next
  case (6 ic r st)
  then show ?case by (cases st') auto
next
  case (7 ic r st)
  show ?case
  proof (cases "st' = st")
    case True
    then show ?thesis by simp
  next
    case False
    with "7.prems" obtain m where m: "m \<in> set (rmatch ic r st)"
      "length (snd m) < length (snd st)" "st' \<in> set (rmatch ic (Star r) m)"
      by (subst (asm) rmatch.simps(7)) auto
    from "7.IH"(2)[of m st'] m show ?thesis by simp
  qed
next
  case (8 ic st)
  then show ?case by (auto split: if_splits)
qed

lemma first_match_Some:
  "first_match ic r must_advance st = Some st' \<Longrightarrow>
     st' \<in> set (rmatch ic r st) \<and> (\<not> must_advance \<or> length (snd st') < length (snd st))"
  by (auto simp: first_match_def find_Some_iff)

text \<open>
  \<open>pattern.sub(repl, text)\<close> with a constant replacement, scanning from a position:
  the leftmost match is replaced and the scan resumes at its end, where an empty match
  must advance if the match just replaced was empty; where no match starts, the
  character is copied.
\<close>

function re_sub_from :: "bool \<Rightarrow> regex \<Rightarrow> string \<Rightarrow> bool \<Rightarrow> pos \<Rightarrow> string" where
  "re_sub_from ic r repl must_advance st =
     (case first_match ic r must_advance st of
        Some st' \<Rightarrow> repl @ re_sub_from ic r repl (length (snd st') = length (snd st)) st'
      | None \<Rightarrow>
          (case snd st of
             [] \<Rightarrow> []
           | c # s \<Rightarrow> c # re_sub_from ic r repl False (Some c, s)))"
  by pat_completeness auto
termination
proof (relation "measures [\<lambda>(ic, r, repl, m, st). length (snd st),
                           \<lambda>(ic, r, repl, m, st). if m then 0 else 1]", goal_cases)
  case 1
  show ?case by simp
next
  case 2
  then show ?case by simp
next
  case (3 ic r repl must_advance st st')
  from first_match_Some[OF 3]
  have mem: "st' \<in> set (rmatch ic r st)"
    and adv: "\<not> must_advance \<or> length (snd st') < length (snd st)"
    by simp_all
  from rmatch_length[OF mem] adv show ?case by auto
qed

declare re_sub_from.simps [simp del]

definition re_sub :: "bool \<Rightarrow> regex \<Rightarrow> string \<Rightarrow> string \<Rightarrow> string" where
  "re_sub ic r repl text = re_sub_from ic r repl False (None, text)"

section \<open>config.py\<close>

text \<open>
  The entries of \<open>CONFIG\<close> that the modelled code reads. Speaker patterns are kept in
  compiled form; every component receives the configuration as an argument.
\<close>

record config =
  doctor_patterns :: "regex list"
  patient_patterns :: "regex list"
  filler_words :: "string list"
  remove_fillers :: bool
  normalize_whitespace :: bool
  entity_categories :: "(string \<times> string list) list"
  entity_default_category :: string
  llm_max_chars :: nat
  top_entities_for_llm :: nat
  positive_threshold :: real
  negative_threshold :: real
  intent_labels :: "string list"

text \<open>\<open>\s*:\<close>, the tail of every speaker pattern.\<close>

definition colon_tail :: regex where
  "colon_tail = Seq (Star (Cls space_chars)) (Lit CHR '':'')"

text \<open>The shipped configuration.\<close>

definition CONFIG :: config where
  "CONFIG = \<lparr>
     doctor_patterns =
       [Seq (Alt (lits ''doctor'')
              (Alt (lits ''physician'') (Seq (lits ''dr'') (Opt (Lit CHR ''.''))))) colon_tail,
        Seq (Alt (lits ''provider'')
              (Alt (lits ''clinician'') (lits ''practitioner''))) colon_tail,
        Seq (lits ''MD'') colon_tail],
     patient_patterns =
       [Seq (Alt (lits ''patient'') (Seq (lits ''pt'') (Opt (Lit CHR ''.'')))) colon_tail,
        Seq (Alt (lits ''client'') (lits ''individual'')) colon_tail],
     filler_words = [''um'', ''uh'', ''like'', ''you know'', ''i mean'', ''well''],
     remove_fillers = False,
     normalize_whitespace = True,
     entity_categories =
       [(''symptoms'', [''SYMPTOM'', ''SIGN'', ''FINDING'']),
        (''diseases'', [''DISEASE'', ''CONDITION'', ''DISORDER'', ''SYNDROME'']),
        (''treatments'', [''TREATMENT'', ''PROCEDURE'', ''THERAPY'', ''INTERVENTION'']),
        (''anatomy'', [''ANATOMY'', ''BODY_PART'', ''ORGAN'', ''TISSUE'', ''ANATOMICAL'']),
        (''medications'', [''MEDICATION'', ''DRUG'', ''PHARMACEUTICAL'', ''MEDICINE''])],
     entity_default_category = ''other'',
     llm_max_chars = 4000,
     top_entities_for_llm = 25,
     positive_threshold = 65 / 100,
     negative_threshold = 65 / 100,
     intent_labels =
       [''Reporting symptoms'', ''Seeking reassurance'', ''Expressing improvement'',
        ''Asking questions'', ''Neutral update'']
   \<rparr>"

section \<open>preprocessing.py: TranscriptPreprocessor\<close>

text \<open>\<open>[ \t]+\<close>\<close>

definition blank_run :: regex where
  "blank_run = Seq (Cls [CHR 0x20, CHR 0x09]) (Star (Cls [CHR 0x20, CHR 0x09]))"

text \<open>
  \<open>\b{filler}\b\<close>. The filler is interpolated into the pattern text; the configured
  fillers are letters and spaces, which stand for themselves.
\<close>

definition filler_pattern :: "string \<Rightarrow> regex" where
  "filler_pattern filler = Seq Bnd (Seq (lits filler) Bnd)"

text \<open>
  \<open>clean_transcript\<close>. None of the operations raises on a string, so the \<open>except\<close>
  branch is not part of the model.
\<close>

definition clean_transcript :: "config \<Rightarrow> string \<Rightarrow> string" where
  "clean_transcript cfg text0 =
     (let text1 = (if normalize_whitespace cfg then re_sub False blank_run '' '' text0 else text0);
          text2 = (if remove_fillers cfg
                   then fold (\<lambda>filler t. re_sub True (filler_pattern filler) [] t)
                          (filler_words cfg) text1
                   else text1)
      in strip text2)"

text \<open>\<open>text.split('\n')\<close>\<close>

fun split_lines :: "string \<Rightarrow> string list" where
  "split_lines [] = [[]]"
| "split_lines (c # s) =
     (if c = CHR 0x0A then [] # split_lines s
      else (case split_lines s of
              [] \<Rightarrow> [[c]]
            | l # ls \<Rightarrow> (c # l) # ls))"

record metadata =
  total_turns :: nat
  doctor_turns :: nat
  patient_turns :: nat
  total_characters :: nat
  unmatched_lines :: nat

record speakers =
  doctor :: "string list"
  patient :: "string list"
  full_text :: string
  metadata :: metadata

text \<open>
  One \<open>for pattern in ...\<close> loop of \<open>split_speakers\<close>: at the first pattern that matches
  at the start of the line the loop breaks with
  \<open>clean_line = pattern.sub('', line).strip()\<close>; \<open>None\<close> when no pattern matches.
\<close>

fun match_speaker :: "regex list \<Rightarrow> string \<Rightarrow> string option" where
  "match_speaker [] line = None"
| "match_speaker (pattern # patterns) line =
     (if re_match True pattern line then Some (strip (re_sub True pattern [] line))
      else match_speaker patterns line)"

text \<open>
  The body of \<open>for line in lines\<close>, on the state
  \<open>(doctor_lines, patient_lines, unmatched_lines)\<close>.
\<close>

definition split_step ::
  "config \<Rightarrow> string \<Rightarrow> string list \<times> string list \<times> nat \<Rightarrow> string list \<times> string list \<times> nat" where
  "split_step cfg line0 acc =
     (case acc of (doctor_lines, patient_lines, unmatched) \<Rightarrow>
        let line = strip line0 in
        if line = [] then acc
        else
          (case match_speaker (doctor_patterns cfg) line of
             Some clean_line \<Rightarrow>
               if clean_line \<noteq> [] then (doctor_lines @ [clean_line], patient_lines, unmatched)
               else acc
           | None \<Rightarrow>
               (case match_speaker (patient_patterns cfg) line of
                  Some clean_line \<Rightarrow>
                    if clean_line \<noteq> [] then (doctor_lines, patient_lines @ [clean_line], unmatched)
                    else acc
                | None \<Rightarrow> (doctor_lines, patient_lines, unmatched + 1))))"

text \<open>
  \<open>split_speakers\<close>. No operation of the \<open>try\<close> block raises on a string, so the
  \<open>except\<close> branch is not part of the model.
\<close>

definition split_speakers :: "config \<Rightarrow> string \<Rightarrow> speakers" where
  "split_speakers cfg text0 =
     (case fold (split_step cfg) (split_lines text0) ([], [], 0) of
        (doctor_lines, patient_lines, unmatched) \<Rightarrow>
          \<lparr> doctor = doctor_lines,
            patient = patient_lines,
            full_text = text0,
            metadata = \<lparr> total_turns = length doctor_lines + length patient_lines,
                         doctor_turns = length doctor_lines,
                         patient_turns = length patient_lines,
                         total_characters = length text0,
                         unmatched_lines = unmatched \<rparr> \<rparr>)"

definition validate_transcript :: "speakers \<Rightarrow> bool" where
  "validate_transcript sp =
     (if doctor sp = [] then False
      else if patient sp = [] then False
      else if length (full_text sp) < 50 then False
      else True)"

section \<open>ner_extractor.py: categorize_entities\<close>

text \<open>An entity as \<open>EntityFields.create\<close> builds it.\<close>

record entity =
  e_text :: string
  e_type :: string
  e_confidence :: real
  e_start :: int
  e_end :: int

text \<open>
  \<open>categories[category].append(entity)\<close>. The key is always present when this is
  called, since every category was inserted before the loop.
\<close>

fun dict_append :: "string \<Rightarrow> 'a \<Rightarrow> 'a list dict \<Rightarrow> 'a list dict" where
  "dict_append k x [] = []"
| "dict_append k x ((k', xs) # d) =
     (if k' = k then (k', xs @ [x]) # d else (k', xs) # dict_append k x d)"

text \<open>
  The inner loop over \<open>category_mappings.items()\<close>: the first category one of whose
  keywords, upper-cased, occurs in \<open>entity_type\<close>.
\<close>

fun find_category :: "(string \<times> string list) list \<Rightarrow> string \<Rightarrow> string option" where
  "find_category [] entity_type = None"
| "find_category ((category, keywords) # rest) entity_type =
     (if list_ex (\<lambda>keyword. sublist (upper keyword) entity_type) keywords then Some category
      else find_category rest entity_type)"

definition categorize_step :: "config \<Rightarrow> entity \<Rightarrow> entity list dict \<Rightarrow> entity list dict" where
  "categorize_step cfg ent categories =
     (let entity_type = upper (e_type ent) in
      case find_category (entity_categories cfg) entity_type of
        Some category \<Rightarrow> dict_append category ent categories
      | None \<Rightarrow> dict_append (entity_default_category cfg) ent categories)"

text \<open>
  \<open>categories = {cat: [] for cat in self.category_mappings.keys()}\<close> and
  \<open>categories[self.default_category] = []\<close>
\<close>

definition empty_categories :: "config \<Rightarrow> entity list dict" where
  "empty_categories cfg =
     dict_set (entity_default_category cfg) []
       (fold (\<lambda>cat d. dict_set cat [] d) (map fst (entity_categories cfg)) [])"

definition categorize_entities :: "config \<Rightarrow> entity list \<Rightarrow> entity list dict" where
  "categorize_entities cfg entities = fold (categorize_step cfg) entities (empty_categories cfg)"

section \<open>llm_extractor.py: LLMExtractor\<close>

text \<open>
  The external collaborators and the environment of one run. The generative model is
  reached through \<open>_generate\<close>, which returns the reply text, or the empty string when
  the call fails; its three uses are three functions of the data that goes into the
  prompt. \<open>json_loads\<close> is \<open>None\<close> where \<open>json.loads\<close> raises; \<open>sentiment_pipeline\<close> and
  \<open>read_file\<close> are \<open>None\<close> where the call raises. \<open>extract_entities\<close> is the entity
  extraction stage, which returns a list on every input.

  A float is given by its value. The interpreter's arithmetic on floats is part of the
  environment and is not defined here: \<open>float_sum\<close> is \<open>sum\<close> over floats, \<open>float_div\<close>
  is the division of a float by an \<open>int\<close>, \<open>float_round\<close> is \<open>round(x, ndigits)\<close>.
\<close>

record collaborators =
  read_file :: "string \<Rightarrow> string option"
  extract_entities :: "string \<Rightarrow> entity list"
  generate_summary :: "string \<Rightarrow> entity list \<Rightarrow> string"
  generate_intent :: "string list \<Rightarrow> string"
  generate_soap :: "string \<Rightarrow> entity list \<Rightarrow> nat \<Rightarrow> nat \<Rightarrow> string"
  json_loads :: "string \<Rightarrow> json option"
  sentiment_pipeline :: "string \<Rightarrow> (string \<times> real) option"
  float_sum :: "real list \<Rightarrow> real"
  float_div :: "real \<Rightarrow> nat \<Rightarrow> real"
  float_round :: "real \<Rightarrow> nat \<Rightarrow> real"
  now_timestamp :: string
  now_isoformat :: string
  save_outputs_ok :: bool

text \<open>\<open>response.split('```')\<close>\<close>

fun split_fence :: "string \<Rightarrow> string list" where
  "split_fence (a # b # c # s) =
     (if a = CHR 0x60 \<and> b = CHR 0x60 \<and> c = CHR 0x60 then [] # split_fence s
      else (case split_fence (b # c # s) of
              [] \<Rightarrow> [[a]]
            | l # ls \<Rightarrow> (a # l) # ls))"
| "split_fence s = [s]"

definition clean_json_response :: "string \<Rightarrow> string" where
  "clean_json_response response0 =
     (let response = strip response0 in
      if prefix [CHR 0x60, CHR 0x60, CHR 0x60] response then
        (case split_fence response of
           p0 # p1 # ps \<Rightarrow>
             if prefix ''json'' p1 \<or> prefix ''JSON'' p1 then strip (drop 4 p1) else strip p1
         | _ \<Rightarrow> strip response)
      else strip response)"

text \<open>\<open>transcript[:max_chars] if len(transcript) > max_chars else transcript\<close>\<close>

definition excerpt :: "config \<Rightarrow> string \<Rightarrow> string" where
  "excerpt cfg transcript =
     (if length transcript > llm_max_chars cfg then take (llm_max_chars cfg) transcript
      else transcript)"

definition extract_medical_summary :: "collaborators \<Rightarrow> config \<Rightarrow> string \<Rightarrow> entity list \<Rightarrow> json" where
  "extract_medical_summary col cfg transcript entities =
     (let response = generate_summary col (excerpt cfg transcript)
                       (take (top_entities_for_llm cfg) entities);
          response = clean_json_response response
      in case json_loads col response of
           None \<Rightarrow> JObj medical_default
         | Some summary \<Rightarrow>
             (case medical_validate summary of
                Inl e \<Rightarrow> JObj medical_default
              | Inr summary' \<Rightarrow> summary'))"

definition analyze_sentiment_with_distilbert :: "collaborators \<Rightarrow> config \<Rightarrow> string \<Rightarrow> string" where
  "analyze_sentiment_with_distilbert col cfg text0 =
     (case sentiment_pipeline col (take 512 text0) of
        None \<Rightarrow> ''Neutral''
      | Some (label, score) \<Rightarrow>
          if label = ''POSITIVE'' \<and> score \<ge> positive_threshold cfg then ''Reassured''
          else if label = ''NEGATIVE'' \<and> score \<ge> negative_threshold cfg then ''Anxious''
          else ''Neutral'')"

text \<open>
  \<open>_analyze_intent_with_gemini\<close>. \<open>CONFIG['intent_labels'][0]\<close> raises \<open>IndexError\<close> on
  an empty label list, in the \<open>try\<close> block and again in the handler.
\<close>

definition analyze_intent_with_gemini :: "collaborators \<Rightarrow> config \<Rightarrow> string list \<Rightarrow> py_error + string" where
  "analyze_intent_with_gemini col cfg patient_utterances =
     (let response = strip (generate_intent col patient_utterances) in
      if response \<in> set (intent_labels cfg) then Inr response
      else
        (case find (\<lambda>intent. sublist (lower intent) (lower response)) (intent_labels cfg) of
           Some intent \<Rightarrow> Inr intent
         | None \<Rightarrow>
             (case intent_labels cfg of
                [] \<Rightarrow> Inl IndexError
              | first_label # _ \<Rightarrow> Inr first_label)))"

text \<open>\<open>" ".join(patient_utterances)\<close>\<close>

fun join_space :: "string list \<Rightarrow> string" where
  "join_space [] = []"
| "join_space [u] = u"
| "join_space (u # us) = u @ '' '' @ join_space us"

definition analyze_sentiment_intent :: "collaborators \<Rightarrow> config \<Rightarrow> string list \<Rightarrow> py_error + json dict" where
  "analyze_sentiment_intent col cfg patient_utterances =
     (if patient_utterances = [] then Inr sentiment_default
      else
        let patient_text = join_space patient_utterances;
            sentiment = analyze_sentiment_with_distilbert col cfg patient_text
        in case analyze_intent_with_gemini col cfg patient_utterances of
             Inl e \<Rightarrow> Inl e
           | Inr intent \<Rightarrow> Inr [(''Sentiment'', JStr sentiment), (''Intent'', JStr intent)])"

definition generate_soap_note :: "collaborators \<Rightarrow> config \<Rightarrow> string \<Rightarrow> entity list \<Rightarrow> speakers \<Rightarrow> json" where
  "generate_soap_note col cfg transcript entities sp =
     (let response = generate_soap col (excerpt cfg transcript)
                       (take (top_entities_for_llm cfg) entities)
                       (doctor_turns (metadata sp)) (patient_turns (metadata sp));
          response = clean_json_response response
      in case json_loads col response of
           None \<Rightarrow> JObj (map (\<lambda>(section, sub). (section, JObj sub)) soap_default)
         | Some soap \<Rightarrow>
             (case soap_validate soap of
                Inl e \<Rightarrow> JObj (map (\<lambda>(section, sub). (section, JObj sub)) soap_default)
              | Inr soap' \<Rightarrow> soap'))"

section \<open>main.py: MedicalTranscriptPipeline.process\<close>

record statistics =
  total :: nat
  by_category :: "nat dict"
  average_confidence :: real

record transcript_info =
  source_file :: string
  timestamp :: string
  processing_date :: string
  info_metadata :: metadata

record results =
  res_transcript_info :: transcript_info
  all_entities :: "entity list"
  categorized :: "entity list dict"
  res_statistics :: statistics
  medical_summary :: json
  sentiment_intent :: "json dict"
  soap_note :: json

text \<open>
  The \<open>statistics\<close> entry of the composite result. The mean is
  \<open>round(sum(e['confidence'] for e in entities) / len(entities), 3)\<close>, computed by the
  interpreter on floats, and the literal \<open>0.0\<close> for no entities.
\<close>

definition make_statistics :: "collaborators \<Rightarrow> entity list \<Rightarrow> entity list dict \<Rightarrow> statistics" where
  "make_statistics col entities cats =
     \<lparr> total = length entities,
       by_category = map (\<lambda>(cat, ent_list). (cat, length ent_list)) cats,
       average_confidence =
         (if entities \<noteq> []
          then float_round col
                 (float_div col (float_sum col (map e_confidence entities)) (length entities)) 3
          else 0) \<rparr>"

text \<open>
  \<open>process\<close>: every exception leaves the function (the handler logs and re-raises).
  Reading the file and saving the outputs raise when the environment says so.
\<close>

definition process :: "collaborators \<Rightarrow> config \<Rightarrow> string \<Rightarrow> py_error + results" where
  "process col cfg transcript_path =
     (case read_file col transcript_path of
        None \<Rightarrow> Inl OSError
      | Some raw_transcript \<Rightarrow>
          let cleaned = clean_transcript cfg raw_transcript;
              sp = split_speakers cfg cleaned
          in if \<not> validate_transcript sp then Inl (ValueError ''Invalid transcript format'')
             else
               let entities = extract_entities col (full_text sp);
                   cats = categorize_entities cfg entities;
                   summary = extract_medical_summary col cfg (full_text sp) entities
               in (case analyze_sentiment_intent col cfg (patient sp) of
                    Inl e \<Rightarrow> Inl e
                  | Inr si \<Rightarrow>
                      let soap = generate_soap_note col cfg (full_text sp) entities sp;
                          res = \<lparr> res_transcript_info =
                                    \<lparr> source_file = transcript_path,
                                      timestamp = now_timestamp col,
                                      processing_date = now_isoformat col,
                                      info_metadata = metadata sp \<rparr>,
                                  all_entities = entities,
                                  categorized = cats,
                                  res_statistics = make_statistics col entities cats,
                                  medical_summary = summary,
                                  sentiment_intent = si,
                                  soap_note = soap \<rparr>
                      in if save_outputs_ok col then Inr res else Inl OSError))"

section \<open>Auxiliary definitions for the statements\<close>

text \<open>What the outer loop of \<open>SOAPFields.validate\<close> leaves at a section key.\<close>

definition section_result :: "json dict \<Rightarrow> json option \<Rightarrow> json dict" where
  "section_result dflt x = (case x of Some (JObj sec) \<Rightarrow> fold soap_subfield dflt sec | _ \<Rightarrow> dflt)"

text \<open>
  An environment for the examples: a two-turn transcript, two entities, a reply that
  parses to a record with a list as \<open>Diagnosis\<close> and one extra field. Exact
  arithmetic stands for the interpreter's; no example reads a value computed with it.
\<close>

definition demo_transcript :: string where
  "demo_transcript =
     ''Doctor:  Good morning, how are you feeling today?'' @ [CHR 0x0A] @
     ''Patient: I have had a headache since Monday.''"

definition demo_entities :: "entity list" where
  "demo_entities =
     [\<lparr> e_text = ''headache'', e_type = ''Sign_symptom'', e_confidence = 95 / 100,
        e_start = 68, e_end = 76 \<rparr>,
      \<lparr> e_text = ''Monday'', e_type = ''Date'', e_confidence = 9 / 10,
        e_start = 83, e_end = 89 \<rparr>]"

definition demo_reply :: "json dict" where
  "demo_reply = [(''Diagnosis'', JList [JStr ''flu'', JStr ''cold'']), (''Source'', JStr ''model'')]"

definition demo_collaborators :: collaborators where
  "demo_collaborators = \<lparr>
     read_file = (\<lambda>path. if path = ''visit.txt'' then Some demo_transcript
                         else if path = ''short.txt'' then Some ''Doctor: hi''
                         else None),
     extract_entities = (\<lambda>t. demo_entities),
     generate_summary = (\<lambda>t es. ''{}''),
     generate_intent = (\<lambda>us. ''I think the patient is reporting symptoms.''),
     generate_soap = (\<lambda>t es d p. ''{}''),
     json_loads = (\<lambda>s. Some (JObj demo_reply)),
     sentiment_pipeline = (\<lambda>t. Some (''NEGATIVE'', 9 / 10)),
     float_sum = sum_list,
     float_div = (\<lambda>x n. x / of_nat n),
     float_round = (\<lambda>x ndigits. of_int (round (x * 10 ^ ndigits)) / 10 ^ ndigits),
     now_timestamp = ''20240101_120000'',
     now_isoformat = ''2024-01-01T12:00:00'',
     save_outputs_ok = True \<rparr>"

text \<open>A SOAP record for the examples.\<close>

definition demo_soap :: "json dict" where
  "demo_soap =
     [(''Subjective'',
        JObj [(''Chief_Complaint'', JStr ''Neck pain''),
              (''History_of_Present_Illness'', JStr ''Since the accident'')]),
      (''Assessment'',
        JObj [(''Diagnosis'', JStr ''   ''), (''Severity'', JStr ''Mild''), (''Note'', JNull)])]"

text \<open>The lines that the loop of \<open>split_speakers\<close> does not skip, trimmed.\<close>

definition nonempty_lines :: "string \<Rightarrow> string list" where
  "nonempty_lines text0 = filter (\<lambda>l. l \<noteq> []) (map strip (split_lines text0))"

text \<open>What becomes of one such line.\<close>

datatype line_class = DoctorTurn string | PatientTurn string | EmptyTurn | Unmatched

definition classify :: "config \<Rightarrow> string \<Rightarrow> line_class" where
  "classify cfg line =
     (case match_speaker (doctor_patterns cfg) line of
        Some c \<Rightarrow> if c \<noteq> [] then DoctorTurn c else EmptyTurn
      | None \<Rightarrow>
          (case match_speaker (patient_patterns cfg) line of
             Some c \<Rightarrow> if c \<noteq> [] then PatientTurn c else EmptyTurn
           | None \<Rightarrow> Unmatched))"

fun doctor_part :: "line_class list \<Rightarrow> string list" where
  "doctor_part [] = []"
| "doctor_part (DoctorTurn c # cs) = c # doctor_part cs"
| "doctor_part (_ # cs) = doctor_part cs"

fun patient_part :: "line_class list \<Rightarrow> string list" where
  "patient_part [] = []"
| "patient_part (PatientTurn c # cs) = c # patient_part cs"
| "patient_part (_ # cs) = patient_part cs"

text \<open>
  Runs of spaces and tabs collapsed to one space, written as a recursion on the text, and
  the texts on which that changes nothing: no tab and no two spaces in a row.
\<close>

definition is_blank :: "char \<Rightarrow> bool" where
  "is_blank c = (c = CHR 0x20 \<or> c = CHR 0x09)"

function collapse :: "string \<Rightarrow> string" where
  "collapse [] = []"
| "collapse (c # s) =
     (if is_blank c then CHR 0x20 # collapse (dropWhile is_blank s) else c # collapse s)"
  by pat_completeness auto
termination
  by (relation "measure length") (auto simp: length_dropWhile_le less_Suc_eq_le)

fun norm_ws :: "string \<Rightarrow> bool" where
  "norm_ws [] = True"
| "norm_ws [c] = (c \<noteq> CHR 0x09)"
| "norm_ws (c # d # s) = (c \<noteq> CHR 0x09 \<and> \<not> (c = CHR 0x20 \<and> d = CHR 0x20) \<and> norm_ws (d # s))"

text \<open>Whether the character before a position is a word character.\<close>

definition wordy :: "char option \<Rightarrow> bool" where
  "wordy p = (case p of None \<Rightarrow> False | Some c \<Rightarrow> is_word c)"

text \<open>
  \<open>tail_at g s\<close>: the text \<open>s\<close> starts with \<open>g\<close>, letter case ignored, and what follows
  is the end of the text or a character that is not a word character.
\<close>

fun tail_at :: "string \<Rightarrow> string \<Rightarrow> bool" where
  "tail_at [] [] = True"
| "tail_at [] (d # s) = (\<not> is_word d)"
| "tail_at (a # g) [] = False"
| "tail_at (a # g) (c # s) = (ch_eq True a c \<and> tail_at g s)"

text \<open>
  A filler occurs at a position: a word boundary before it (\<open>w\<close> tells whether the
  character before is a word character), the filler, a word boundary after it.
\<close>

definition filler_at :: "string \<Rightarrow> bool \<Rightarrow> string \<Rightarrow> bool" where
  "filler_at f w s = (\<not> w \<and> tail_at f s)"

text \<open>The occurrences of a filler removed from left to right, as a recursion on the text.\<close>

function drop_filler :: "string \<Rightarrow> bool \<Rightarrow> string \<Rightarrow> string" where
  "drop_filler f w [] = []"
| "drop_filler f w (c # s) =
     (if f \<noteq> [] \<and> filler_at f w (c # s) then drop_filler f True (drop (length f) (c # s))
      else c # drop_filler f (is_word c) s)"
  by pat_completeness auto
termination
  by (relation "measure (\<lambda>(f, w, s). length s)") auto

text \<open>No occurrence of the filler in the text.\<close>

fun filler_free :: "string \<Rightarrow> bool \<Rightarrow> string \<Rightarrow> bool" where
  "filler_free f w [] = True"
| "filler_free f w (c # s) = (\<not> filler_at f w (c # s) \<and> filler_free f (is_word c) s)"

text \<open>
  A plain filler: words of word characters separated by single spaces. \<open>ok_tail b g\<close>
  says that \<open>g\<close>, coming after a character whose being a word character is \<open>b\<close>, has no
  two characters in a row that are not word characters and ends in a word character.
\<close>

fun ok_tail :: "bool \<Rightarrow> string \<Rightarrow> bool" where
  "ok_tail b [] = b"
| "ok_tail b (a # g) = ((b \<or> is_word a) \<and> ok_tail (is_word a) g)"

definition plain_filler :: "string \<Rightarrow> bool" where
  "plain_filler f =
     (f \<noteq> [] \<and> is_word (hd f) \<and> ok_tail True f \<and> list_all (\<lambda>c. is_word c \<or> c = CHR 0x20) f)"

declare drop_filler.simps(2) [simp del]

text \<open>The text starts with \<open>g\<close>, letter case ignored.\<close>

fun ci_prefix :: "string \<Rightarrow> string \<Rightarrow> bool" where
  "ci_prefix [] s = True"
| "ci_prefix (a # g) [] = False"
| "ci_prefix (a # g) (c # s) = (ch_eq True a c \<and> ci_prefix g s)"

text \<open>The loop over the fillers.\<close>

definition remove_all :: "string list \<Rightarrow> string \<Rightarrow> string" where
  "remove_all fs t = fold (\<lambda>filler t. re_sub True (filler_pattern filler) [] t) fs t"

text \<open>
  The category of an entity: the first configured category one of whose keywords,
  upper-cased, occurs in the upper-cased type label; the catch-all when there is none.
\<close>

definition keyword_match :: "string list \<Rightarrow> entity \<Rightarrow> bool" where
  "keyword_match keywords ent = list_ex (\<lambda>keyword. sublist (upper keyword) (upper (e_type ent))) keywords"

definition category_of :: "config \<Rightarrow> entity \<Rightarrow> string" where
  "category_of cfg ent =
     (case find (\<lambda>p. keyword_match (snd p) ent) (entity_categories cfg) of
        Some p \<Rightarrow> fst p
      | None \<Rightarrow> entity_default_category cfg)"

definition category_keys :: "config \<Rightarrow> string set" where
  "category_keys cfg = insert (entity_default_category cfg) (fst ` set (entity_categories cfg))"



section \<open>Dictionaries and the schema validators\<close>

lemma map_of_dict_set: "map_of (dict_set k v d) k' = (if k' = k then Some v else map_of d k')"
  by (induction d) auto

lemma dict_set_same: "map_of d k = Some v \<Longrightarrow> dict_set k v d = d"
  by (induction d) (auto split: if_splits)

lemma fill_missing_obj:
  "\<exists>d'. fill_missing dflt (JObj d) = Inr (JObj d') \<and>
        (\<forall>k. map_of d' k = (case map_of d k of Some v \<Rightarrow> Some v | None \<Rightarrow> map_of dflt k))"
proof (induction dflt arbitrary: d)
  case Nil
  then show ?case by (auto split: option.splits)
next
  case (Cons p dflt)
  obtain f dv where p: "p = (f, dv)" by (cases p)
  show ?case
  proof (cases "dict_has d f")
    case True
    from Cons.IH[of d] obtain d' where
      d': "fill_missing dflt (JObj d) = Inr (JObj d')"
      "\<forall>k. map_of d' k = (case map_of d k of Some v \<Rightarrow> Some v | None \<Rightarrow> map_of dflt k)"
      by blast
    with True p show ?thesis
      by (auto simp: dict_has_def split: option.splits)
  next
    case False
    from Cons.IH[of "dict_set f dv d"] obtain d' where
      d': "fill_missing dflt (JObj (dict_set f dv d)) = Inr (JObj d')"
      "\<forall>k. map_of d' k = (case map_of (dict_set f dv d) k of Some v \<Rightarrow> Some v | None \<Rightarrow> map_of dflt k)"
      by blast
    with False p show ?thesis
      by (auto simp: dict_has_def map_of_dict_set split: option.splits)
  qed
qed

lemma map_of_fold_subfield:
  "distinct (map fst dflt) \<Longrightarrow>
   map_of (fold soap_subfield dflt sec) f =
     (case map_of dflt f of
        None \<Rightarrow> map_of sec f
      | Some dv \<Rightarrow>
          (case map_of sec f of
             None \<Rightarrow> Some dv
           | Some v \<Rightarrow> if truthy v \<and> \<not> str_blank v then Some v else Some dv))"
proof (induction dflt arbitrary: sec)
  case Nil
  then show ?case by simp
next
  case (Cons p dflt)
  obtain g dv where p: "p = (g, dv)" by (cases p)
  from Cons.prems p have notin: "map_of dflt g = None" and dist: "distinct (map fst dflt)"
    by (auto simp: map_of_eq_None_iff)
  have step: "map_of (soap_subfield p sec) f =
      (if f = g then (case map_of sec g of None \<Rightarrow> Some dv
                      | Some v \<Rightarrow> if truthy v \<and> \<not> str_blank v then Some v else Some dv)
       else map_of sec f)"
    by (auto simp: soap_subfield_def p map_of_dict_set split: option.splits)
  show ?case
  proof (cases "f = g")
    case True
    with Cons.IH[OF dist, of "soap_subfield p sec"] step notin p show ?thesis
      by (simp split: option.splits)
  next
    case False
    with Cons.IH[OF dist, of "soap_subfield p sec"] step p show ?thesis
      by (simp split: option.splits)
  qed
qed

lemma map_of_soap_section:
  "map_of (soap_section p d) k =
     (if k = fst p then Some (JObj (section_result (snd p) (map_of d (fst p)))) else map_of d k)"
  by (auto simp: soap_section_def section_result_def map_of_dict_set split: option.splits json.splits)

lemma map_of_fold_section:
  "distinct (map fst ps) \<Longrightarrow>
   map_of (fold soap_section ps d) k =
     (case map_of ps k of
        None \<Rightarrow> map_of d k
      | Some dflt \<Rightarrow> Some (JObj (section_result dflt (map_of d k))))"
proof (induction ps arbitrary: d)
  case Nil
  then show ?case by simp
next
  case (Cons p ps)
  from Cons.prems have notin: "map_of ps (fst p) = None" and dist: "distinct (map fst ps)"
    by (auto simp: map_of_eq_None_iff)
  show ?case
  proof (cases "k = fst p")
    case True
    with Cons.IH[OF dist, of "soap_section p d"] notin show ?thesis
      by (cases p) (simp add: map_of_soap_section)
  next
    case False
    with Cons.IH[OF dist, of "soap_section p d"] show ?thesis
      by (cases p) (simp add: map_of_soap_section split: option.splits)
  qed
qed

text \<open>
  Claim C1, as the code has it: on every record the Medical Summary validator returns a
  record in which every key of the input keeps its value, whatever its type and also
  when it is an empty string, and each of the six required fields that is absent has its
  default (\<open>Unknown\<close> or the empty list); \<open>extract_medical_summary\<close> returns this record
  when the reply parses to a record.
\<close>

theorem medical_validate_fills_missing:
  "\<exists>d'. medical_validate (JObj d) = Inr (JObj d') \<and>
      (\<forall>k. map_of d' k = (case map_of d k of Some v \<Rightarrow> Some v | None \<Rightarrow> map_of medical_default k)) \<and>
      (\<forall>k \<in> fst ` set medical_default. dict_has d' k) \<and>
      (json_loads col (clean_json_response (generate_summary col (excerpt cfg transcript)
            (take (top_entities_for_llm cfg) entities))) = Some (JObj d)
         \<longrightarrow> extract_medical_summary col cfg transcript entities = JObj d')"
proof -
  from fill_missing_obj[of medical_default d] obtain d' where
    d': "medical_validate (JObj d) = Inr (JObj d')"
      "\<forall>k. map_of d' k = (case map_of d k of Some v \<Rightarrow> Some v | None \<Rightarrow> map_of medical_default k)"
    unfolding medical_validate_def by blast
  have present: "dict_has d' k" if "k \<in> fst ` set medical_default" for k
  proof -
    from that have "map_of medical_default k \<noteq> None" by (simp add: map_of_eq_None_iff)
    with d'(2) show ?thesis by (cases "map_of d k") (simp_all add: dict_has_def)
  qed
  have "json_loads col (clean_json_response (generate_summary col (excerpt cfg transcript)
            (take (top_entities_for_llm cfg) entities))) = Some (JObj d)
         \<longrightarrow> extract_medical_summary col cfg transcript entities = JObj d'"
    using d'(1) by (simp add: extract_medical_summary_def Let_def)
  with d' present show ?thesis by blast
qed

theorem medical_validate_fills_missing_witness:
  "\<exists>d'. medical_validate (JObj demo_reply) = Inr (JObj d') \<and>
        map_of d' ''Diagnosis'' = Some (JList [JStr ''flu'', JStr ''cold'']) \<and>
        map_of d' ''Symptoms'' = Some (JList []) \<and>
        map_of d' ''Prognosis'' = Some (JStr ''Unknown'') \<and>
        extract_medical_summary demo_collaborators CONFIG ''Doctor: hello'' [] = JObj d'"
proof -
  from medical_validate_fills_missing[of demo_reply
      demo_collaborators CONFIG "''Doctor: hello''" "[]"]
  obtain d' where d': "medical_validate (JObj demo_reply) = Inr (JObj d')"
    "\<forall>k. map_of d' k = (case map_of demo_reply k of Some v \<Rightarrow> Some v | None \<Rightarrow> map_of medical_default k)"
    "json_loads demo_collaborators (clean_json_response (generate_summary demo_collaborators (excerpt CONFIG ''Doctor: hello'')
            (take (top_entities_for_llm CONFIG) []))) = Some (JObj demo_reply)
         \<longrightarrow> extract_medical_summary demo_collaborators CONFIG ''Doctor: hello'' [] = JObj d'"
    by blast
  have "json_loads demo_collaborators (clean_json_response (generate_summary demo_collaborators (excerpt CONFIG ''Doctor: hello'')
            (take (top_entities_for_llm CONFIG) []))) = Some (JObj demo_reply)"
    by (simp add: demo_collaborators_def)
  with d'(3) have "extract_medical_summary demo_collaborators CONFIG ''Doctor: hello'' [] = JObj d'"
    by blast
  moreover have "map_of d' ''Diagnosis'' = Some (JList [JStr ''flu'', JStr ''cold''])"
    "map_of d' ''Symptoms'' = Some (JList [])" "map_of d' ''Prognosis'' = Some (JStr ''Unknown'')"
    using d'(2) by (simp_all add: medical_default_def demo_reply_def)
  ultimately show ?thesis using d'(1) by blast
qed

text \<open>
  Claim C1 as stated fails: a \<open>Diagnosis\<close> that is a list and a \<open>Patient_Name\<close> that is
  the empty string are both returned unchanged.
\<close>

theorem medical_validate_keeps_list_diagnosis:
  "medical_validate (JObj [(''Diagnosis'', JList [JStr ''flu'', JStr ''cold'']), (''Patient_Name'', JStr [])])
     = Inr (JObj [(''Diagnosis'', JList [JStr ''flu'', JStr ''cold'']),
                  (''Patient_Name'', JStr []),
                  (''Symptoms'', JList []),
                  (''Treatment'', JList []),
                  (''Current_Status'', JStr ''Unknown''),
                  (''Prognosis'', JStr ''Unknown'')])"
  by (simp add: medical_validate_def medical_default_def dict_has_def)

lemma soap_subfield_valid:
  "map_of sec (fst p) = Some v \<Longrightarrow> truthy v \<Longrightarrow> \<not> str_blank v \<Longrightarrow> soap_subfield p sec = sec"
  by (simp add: soap_subfield_def)

lemma fold_soap_subfield_valid:
  "(\<And>f. f \<in> fst ` set dflt \<Longrightarrow> \<exists>v. map_of sec f = Some v \<and> truthy v \<and> \<not> str_blank v)
     \<Longrightarrow> fold soap_subfield dflt sec = sec"
proof (induction dflt)
  case Nil
  then show ?case by simp
next
  case (Cons p dflt)
  from Cons.prems[of "fst p"] obtain v where "map_of sec (fst p) = Some v" "truthy v" "\<not> str_blank v"
    by auto
  then have "soap_subfield p sec = sec" by (rule soap_subfield_valid)
  moreover have "fold soap_subfield dflt sec = sec"
    using Cons.prems by (intro Cons.IH) auto
  ultimately show ?case by simp
qed

lemma soap_default_distinct: "distinct (map fst soap_default)"
  by (simp add: soap_default_def)

lemma soap_default_sub_distinct: "map_of soap_default sect = Some dflt \<Longrightarrow> distinct (map fst dflt)"
  by (auto simp: soap_default_def split: if_splits)

text \<open>
  Claim C5, as the code has it: on every record \<open>SOAPFields.validate\<close> returns a record
  in which each of the four sections is present. A section that is absent or is not a
  record becomes that section's default sub-record. Otherwise each of its two sub-fields
  is replaced by \<open>Not documented\<close> exactly when it is absent, has a false truth value
  (\<open>None\<close>, \<open>False\<close>, zero, the empty string, list or record) or is a string of whitespace
  only; every other key of the section is kept, and a section whose two sub-fields are
  valid is returned as it was.
\<close>

theorem soap_validate_sections:
  assumes "map_of soap_default sect = Some dflt"
  shows "\<exists>d'. soap_validate (JObj d) = Inr (JObj d') \<and>
     (case map_of d sect of
        Some (JObj sec) \<Rightarrow>
          (\<exists>sec'. map_of d' sect = Some (JObj sec') \<and>
             (\<forall>f. map_of sec' f =
                (case map_of dflt f of
                   None \<Rightarrow> map_of sec f
                 | Some dv \<Rightarrow>
                     (case map_of sec f of
                        None \<Rightarrow> Some dv
                      | Some v \<Rightarrow> if truthy v \<and> \<not> str_blank v then Some v else Some dv))) \<and>
             ((\<forall>f \<in> fst ` set dflt. \<exists>v. map_of sec f = Some v \<and> truthy v \<and> \<not> str_blank v)
                \<longrightarrow> sec' = sec))
      | _ \<Rightarrow> map_of d' sect = Some (JObj dflt))"
proof -
  let ?d' = "fold soap_section soap_default d"
  have res: "soap_validate (JObj d) = Inr (JObj ?d')" by simp
  have look: "map_of ?d' sect = Some (JObj (section_result dflt (map_of d sect)))"
    using map_of_fold_section[OF soap_default_distinct, of d sect] assms by simp
  have dist: "distinct (map fst dflt)" using assms by (rule soap_default_sub_distinct)
  show ?thesis
  proof (cases "\<exists>sec. map_of d sect = Some (JObj sec)")
    case True
    then obtain sec where sec: "map_of d sect = Some (JObj sec)" by blast
    let ?sec' = "fold soap_subfield dflt sec"
    have 1: "map_of ?d' sect = Some (JObj ?sec')"
      using look sec by (simp add: section_result_def)
    have 2: "\<forall>f. map_of ?sec' f =
                (case map_of dflt f of
                   None \<Rightarrow> map_of sec f
                 | Some dv \<Rightarrow>
                     (case map_of sec f of
                        None \<Rightarrow> Some dv
                      | Some v \<Rightarrow> if truthy v \<and> \<not> str_blank v then Some v else Some dv))"
      using map_of_fold_subfield[OF dist] by blast
    have 3: "(\<forall>f \<in> fst ` set dflt. \<exists>v. map_of sec f = Some v \<and> truthy v \<and> \<not> str_blank v)
                \<longrightarrow> ?sec' = sec"
      using fold_soap_subfield_valid[of dflt sec] by blast
    from 1 2 3 have "\<exists>sec'. map_of ?d' sect = Some (JObj sec') \<and>
             (\<forall>f. map_of sec' f =
                (case map_of dflt f of
                   None \<Rightarrow> map_of sec f
                 | Some dv \<Rightarrow>
                     (case map_of sec f of
                        None \<Rightarrow> Some dv
                      | Some v \<Rightarrow> if truthy v \<and> \<not> str_blank v then Some v else Some dv))) \<and>
             ((\<forall>f \<in> fst ` set dflt. \<exists>v. map_of sec f = Some v \<and> truthy v \<and> \<not> str_blank v)
                \<longrightarrow> sec' = sec)"
      by blast
    with res sec show ?thesis by (intro exI[of _ ?d']) simp
  next
    case False
    then have "section_result dflt (map_of d sect) = dflt"
      by (auto simp: section_result_def split: option.splits json.splits)
    with look have "map_of ?d' sect = Some (JObj dflt)" by simp
    with res False show ?thesis
      by (intro exI[of _ ?d']) (auto split: option.splits json.splits)
  qed
qed

theorem soap_validate_sections_witness:
  "map_of soap_default ''Subjective'' =
     Some [(''Chief_Complaint'', JStr ''Not documented''),
           (''History_of_Present_Illness'', JStr ''Not documented'')] \<and>
   map_of soap_default ''Objective'' =
     Some [(''Physical_Exam'', JStr ''Not documented''), (''Observations'', JStr ''Not documented'')] \<and>
   (\<exists>d'. soap_validate (JObj demo_soap) = Inr (JObj d') \<and>
      map_of d' ''Subjective'' = map_of demo_soap ''Subjective'' \<and>
      map_of d' ''Objective'' =
        Some (JObj [(''Physical_Exam'', JStr ''Not documented''),
                    (''Observations'', JStr ''Not documented'')]))"
proof -
  let ?sd = "[(''Chief_Complaint'', JStr ''Not documented''),
           (''History_of_Present_Illness'', JStr ''Not documented'')]"
  let ?od = "[(''Physical_Exam'', JStr ''Not documented''), (''Observations'', JStr ''Not documented'')]"
  let ?sec = "[(''Chief_Complaint'', JStr ''Neck pain''),
              (''History_of_Present_Illness'', JStr ''Since the accident'')]"
  have hs: "map_of soap_default ''Subjective'' = Some ?sd"
    and ho: "map_of soap_default ''Objective'' = Some ?od"
    by (simp_all add: soap_default_def)
  have ms: "map_of demo_soap ''Subjective'' = Some (JObj ?sec)"
    and mo: "map_of demo_soap ''Objective'' = None"
    by (simp_all add: demo_soap_def)
  have valid: "\<forall>f \<in> fst ` set ?sd. \<exists>v. map_of ?sec f = Some v \<and> truthy v \<and> \<not> str_blank v"
    by (simp add: strip_def is_space_def)
  from soap_validate_sections[OF hs, of demo_soap] ms valid
  obtain d1 where d1: "soap_validate (JObj demo_soap) = Inr (JObj d1)"
    "map_of d1 ''Subjective'' = Some (JObj ?sec)"
    by auto
  from soap_validate_sections[OF ho, of demo_soap] mo
  obtain d2 where d2: "soap_validate (JObj demo_soap) = Inr (JObj d2)"
    "map_of d2 ''Objective'' = Some (JObj ?od)"
    by auto
  from d1(1) d2(1) have "d1 = d2" by simp
  with d1 d2 ms have "soap_validate (JObj demo_soap) = Inr (JObj d1) \<and>
      map_of d1 ''Subjective'' = map_of demo_soap ''Subjective'' \<and>
      map_of d1 ''Objective'' = Some (JObj ?od)"
    by simp
  with hs ho show ?thesis by blast
qed

text \<open>
  Claim C5 as stated fails: a sub-field holding \<open>False\<close> or \<open>0\<close> is neither absent, nor
  empty, nor whitespace, and it is replaced by the default.
\<close>

theorem soap_validate_replaces_false_and_zero:
  "soap_validate (JObj [(''Subjective'',
       JObj [(''Chief_Complaint'', JBool False), (''History_of_Present_Illness'', JInt 0)])])
   = Inr (JObj [(''Subjective'',
            JObj [(''Chief_Complaint'', JStr ''Not documented''),
                  (''History_of_Present_Illness'', JStr ''Not documented'')]),
          (''Objective'',
            JObj [(''Physical_Exam'', JStr ''Not documented''),
                  (''Observations'', JStr ''Not documented'')]),
          (''Assessment'',
            JObj [(''Diagnosis'', JStr ''Not documented''), (''Severity'', JStr ''Not documented'')]),
          (''Plan'',
            JObj [(''Treatment'', JStr ''Not documented''), (''Follow-Up'', JStr ''Not documented'')])])"
  by (simp add: soap_default_def soap_section_def soap_subfield_def)

section \<open>Segmentation\<close>

lemma split_step_classify:
  "split_step cfg l (d, p, u) =
     (if strip l = [] then (d, p, u)
      else (case classify cfg (strip l) of
              DoctorTurn c \<Rightarrow> (d @ [c], p, u)
            | PatientTurn c \<Rightarrow> (d, p @ [c], u)
            | EmptyTurn \<Rightarrow> (d, p, u)
            | Unmatched \<Rightarrow> (d, p, Suc u)))"
  by (simp add: split_step_def classify_def Let_def split: option.splits)

lemma fold_split_step:
  "fold (split_step cfg) ls (d, p, u) =
     (d @ doctor_part (map (classify cfg) (filter (\<lambda>l. l \<noteq> []) (map strip ls))),
      p @ patient_part (map (classify cfg) (filter (\<lambda>l. l \<noteq> []) (map strip ls))),
      u + count_list (map (classify cfg) (filter (\<lambda>l. l \<noteq> []) (map strip ls))) Unmatched)"
proof (induction ls arbitrary: d p u)
  case Nil
  then show ?case by simp
next
  case (Cons l ls)
  show ?case
  proof (cases "strip l = []")
    case True
    then show ?thesis by (simp add: split_step_classify Cons.IH)
  next
    case False
    then show ?thesis
      by (cases "classify cfg (strip l)") (simp_all add: split_step_classify Cons.IH)
  qed
qed

lemma class_count:
  "length cs = length (doctor_part cs) + length (patient_part cs)
      + count_list cs Unmatched + count_list cs EmptyTurn"
  by (induction cs rule: doctor_part.induct) simp_all

text \<open>
  Claim C2, as the code has it: \<open>total_turns = doctor_turns + patient_turns\<close>, and every
  non-empty trimmed line has exactly one of four fates: its content joins the doctor
  sequence, its content joins the patient sequence, it is counted as unmatched, or it
  matched a speaker pattern with nothing left after the prefix and is dropped without
  being counted.
\<close>

theorem split_speakers_accounting:
  "doctor (split_speakers cfg text0) = doctor_part (map (classify cfg) (nonempty_lines text0)) \<and>
   patient (split_speakers cfg text0) = patient_part (map (classify cfg) (nonempty_lines text0)) \<and>
   unmatched_lines (metadata (split_speakers cfg text0))
     = count_list (map (classify cfg) (nonempty_lines text0)) Unmatched \<and>
   doctor_turns (metadata (split_speakers cfg text0)) = length (doctor (split_speakers cfg text0)) \<and>
   patient_turns (metadata (split_speakers cfg text0)) = length (patient (split_speakers cfg text0)) \<and>
   total_turns (metadata (split_speakers cfg text0))
     = doctor_turns (metadata (split_speakers cfg text0))
       + patient_turns (metadata (split_speakers cfg text0)) \<and>
   length (nonempty_lines text0)
     = doctor_turns (metadata (split_speakers cfg text0))
       + patient_turns (metadata (split_speakers cfg text0))
       + unmatched_lines (metadata (split_speakers cfg text0))
       + count_list (map (classify cfg) (nonempty_lines text0)) EmptyTurn"
proof -
  let ?cs = "map (classify cfg) (nonempty_lines text0)"
  have sp: "split_speakers cfg text0 =
      \<lparr> doctor = doctor_part ?cs, patient = patient_part ?cs, full_text = text0,
        metadata = \<lparr> total_turns = length (doctor_part ?cs) + length (patient_part ?cs),
                     doctor_turns = length (doctor_part ?cs),
                     patient_turns = length (patient_part ?cs),
                     total_characters = length text0,
                     unmatched_lines = count_list ?cs Unmatched \<rparr> \<rparr>"
    by (simp add: split_speakers_def fold_split_step nonempty_lines_def)
  have "length (nonempty_lines text0) = length ?cs" by simp
  also have "\<dots> = length (doctor_part ?cs) + length (patient_part ?cs)
      + count_list ?cs Unmatched + count_list ?cs EmptyTurn"
    by (rule class_count)
  finally show ?thesis by (simp add: sp)
qed

text \<open>
  Claim C2 as stated fails: the line \<open>Doctor:\<close> is non-empty and is in neither sequence
  and not in the unmatched counter.
\<close>

theorem split_speakers_drops_bare_prefix:
  "nonempty_lines ''Doctor:'' = [''Doctor:''] \<and>
   doctor (split_speakers CONFIG ''Doctor:'') = [] \<and>
   patient (split_speakers CONFIG ''Doctor:'') = [] \<and>
   unmatched_lines (metadata (split_speakers CONFIG ''Doctor:'')) = 0"
  by code_simp

text \<open>
  Claim C6 against the code: \<open>pattern.sub('', line)\<close> removes every match of the
  pattern in the line, not only the prefix that \<open>pattern.match\<close> found. In the line
  below the patient pattern matches \<open>Patient:\<close> at the start and again \<open>pt:\<close> at the end
  of \<open>receipt:\<close>, and both are removed from the utterance.
\<close>

theorem split_speakers_removes_later_match:
  "patient (split_speakers CONFIG ''Patient: I kept the receipt: it is here'')
     = [''I kept the recei it is here'']"
  by code_simp

section \<open>Cleaning\<close>

lemma star_blank_hd:
  "\<exists>p' rest. rmatch False (Star (Cls [CHR 0x20, CHR 0x09])) (p, s) = (p', dropWhile is_blank s) # rest"
proof (induction s arbitrary: p)
  case Nil
  then show ?case by (subst rmatch.simps(7)) simp
next
  case (Cons c s)
  show ?case
  proof (cases "is_blank c")
    case True
    from Cons.IH[of "Some c"] obtain p' rest where
      "rmatch False (Star (Cls [CHR 0x20, CHR 0x09])) (Some c, s) = (p', dropWhile is_blank s) # rest"
      by blast
    with True show ?thesis
      by (subst rmatch.simps(7)) (auto simp: is_blank_def ch_eq_def)
  next
    case False
    then show ?thesis
      by (subst rmatch.simps(7)) (auto simp: is_blank_def ch_eq_def)
  qed
qed

lemma first_match_blank_run:
  "first_match False blank_run m (p, s) =
     (case s of
        [] \<Rightarrow> None
      | c # s' \<Rightarrow> if is_blank c then Some (hd (rmatch False (Star (Cls [CHR 0x20, CHR 0x09])) (Some c, s')))
                 else None)"
proof (cases s)
  case Nil
  then show ?thesis by (simp add: first_match_def blank_run_def)
next
  case (Cons c s')
  from star_blank_hd[of "Some c" s'] obtain p' rest where
    st: "rmatch False (Star (Cls [CHR 0x20, CHR 0x09])) (Some c, s') = (p', dropWhile is_blank s') # rest"
    by blast
  have "length (dropWhile is_blank s') \<le> length s'" by (rule length_dropWhile_le)
  with Cons st show ?thesis
    by (auto simp: first_match_def blank_run_def is_blank_def ch_eq_def)
qed

lemma re_sub_blank_run:
  "re_sub_from False blank_run '' '' m (p, s) = collapse s"
proof (induction s arbitrary: m p rule: length_induct)
  case (1 s)
  show ?case
  proof (cases s)
    case Nil
    then show ?thesis
      by (subst re_sub_from.simps) (simp add: first_match_blank_run)
  next
    case (Cons c s')
    show ?thesis
    proof (cases "is_blank c")
      case True
      from star_blank_hd[of "Some c" s'] obtain p' rest where
        st: "rmatch False (Star (Cls [CHR 0x20, CHR 0x09])) (Some c, s') = (p', dropWhile is_blank s') # rest"
        by blast
      have len: "length (dropWhile is_blank s') < length s"
        using Cons length_dropWhile_le[of is_blank s'] by simp
      with 1 have "re_sub_from False blank_run '' '' False (p', dropWhile is_blank s')
          = collapse (dropWhile is_blank s')" by blast
      with True Cons st len show ?thesis
        by (subst re_sub_from.simps) (simp add: first_match_blank_run)
    next
      case False
      from 1 Cons have "re_sub_from False blank_run '' '' False (Some c, s') = collapse s'" by simp
      with False Cons show ?thesis
        by (subst re_sub_from.simps) (simp add: first_match_blank_run)
    qed
  qed
qed

lemma dropWhile_fix: "xs = [] \<or> \<not> P (hd xs) \<Longrightarrow> dropWhile P xs = xs"
  by (cases xs) auto

lemma dropWhile_head: "dropWhile P xs = [] \<or> \<not> P (hd (dropWhile P xs))"
  by (metis hd_dropWhile)

lemma strip_head: "strip s = [] \<or> \<not> is_space (hd (strip s))"
proof -
  let ?u = "dropWhile is_space s"
  let ?w = "dropWhile is_space (rev ?u)"
  have dec: "rev ?u = takeWhile is_space (rev ?u) @ ?w" by simp
  then have u: "?u = rev ?w @ rev (takeWhile is_space (rev ?u))"
    by (metis rev_append rev_rev_ident)
  show ?thesis
  proof (cases "?w = []")
    case True
    then show ?thesis by (simp add: strip_def)
  next
    case False
    then have "hd (rev ?w) = hd ?u" using u by (metis hd_append2 rev_is_Nil_conv)
    moreover have "?u \<noteq> []"
    proof
      assume a: "?u = []"
      have "?w = []" unfolding a by simp
      with False show False by blast
    qed
    then have "\<not> is_space (hd ?u)" using dropWhile_head[of is_space s] by blast
    ultimately show ?thesis by (simp add: strip_def)
  qed
qed

lemma strip_last: "dropWhile is_space (rev (strip s)) = rev (strip s)"
  by (simp add: strip_def)

lemma strip_idem: "strip (strip s) = strip s"
proof -
  have "dropWhile is_space (strip s) = strip s"
    using strip_head[of s] by (intro dropWhile_fix) simp
  then show ?thesis
    using strip_last[of s] by (simp add: strip_def)
qed

lemma norm_ws_append: "norm_ws (a @ b) \<Longrightarrow> norm_ws a \<and> norm_ws b"
proof (induction a rule: norm_ws.induct)
  case 1
  then show ?case by simp
next
  case (2 c)
  then show ?case by (cases b) auto
next
  case (3 c d s)
  then show ?case by auto
qed

lemma norm_ws_strip: "norm_ws s \<Longrightarrow> norm_ws (strip s)"
proof -
  assume n: "norm_ws s"
  let ?u = "dropWhile is_space s"
  have "s = takeWhile is_space s @ ?u" by simp
  with n have nu: "norm_ws ?u" using norm_ws_append by metis
  have "rev ?u = takeWhile is_space (rev ?u) @ dropWhile is_space (rev ?u)" by simp
  then have "?u = strip s @ rev (takeWhile is_space (rev ?u))"
    unfolding strip_def by (metis rev_append rev_rev_ident)
  with nu show ?thesis using norm_ws_append by metis
qed

lemma collapse_not_space_start:
  "s = [] \<or> \<not> is_blank (hd s) \<Longrightarrow> collapse s = [] \<or> hd (collapse s) \<noteq> CHR 0x20"
  by (cases s) (auto simp: is_blank_def)

lemma norm_ws_Cons_space:
  "norm_ws t \<Longrightarrow> t = [] \<or> hd t \<noteq> CHR 0x20 \<Longrightarrow> norm_ws (CHR 0x20 # t)"
  by (cases t) auto

lemma norm_ws_Cons_other:
  "norm_ws t \<Longrightarrow> c \<noteq> CHR 0x09 \<Longrightarrow> c \<noteq> CHR 0x20 \<Longrightarrow> norm_ws (c # t)"
  by (cases t) auto

lemma norm_ws_collapse: "norm_ws (collapse s)"
proof (induction s rule: collapse.induct)
  case 1
  then show ?case by simp
next
  case (2 c s)
  show ?case
  proof (cases "is_blank c")
    case True
    have "dropWhile is_blank s = [] \<or> \<not> is_blank (hd (dropWhile is_blank s))"
      by (rule dropWhile_head)
    then have "collapse (dropWhile is_blank s) = [] \<or> hd (collapse (dropWhile is_blank s)) \<noteq> CHR 0x20"
      by (rule collapse_not_space_start)
    with 2 True show ?thesis by (simp add: norm_ws_Cons_space)
  next
    case False
    with 2 show ?thesis by (simp add: norm_ws_Cons_other is_blank_def)
  qed
qed

lemma collapse_norm_ws: "norm_ws s \<Longrightarrow> collapse s = s"
proof (induction s rule: norm_ws.induct)
  case 1
  then show ?case by simp
next
  case (2 c)
  then show ?case by (simp add: is_blank_def)
next
  case (3 c d s)
  then show ?case by (auto simp: is_blank_def)
qed

subsection \<open>Filler removal without whitespace normalisation\<close>

lemma is_word_lower: "is_word (lower_char c) = is_word c"
  by (auto simp: is_word_def lower_char_def Let_def)

lemma ch_eq_word: "ch_eq True a c \<Longrightarrow> is_word c = is_word a"
  by (metis ch_eq_def is_word_lower)

lemma space_not_word: "is_space c \<Longrightarrow> \<not> is_word c"
  by (auto simp: is_space_def is_word_def Let_def)

lemma tail_at_length: "tail_at g s \<Longrightarrow> length g \<le> length s"
  by (induction g s rule: tail_at.induct) auto

lemma tail_at_rest:
  "tail_at g s \<Longrightarrow> drop (length g) s = [] \<or> \<not> is_word (hd (drop (length g) s))"
  by (induction g s rule: tail_at.induct) auto

lemma drop_filler_word:
  "drop_filler f True s = (case s of [] \<Rightarrow> [] | c # s' \<Rightarrow> c # drop_filler f (is_word c) s')"
  by (cases s) (simp_all add: drop_filler.simps(2) filler_at_def)

lemma drop_filler_nonword:
  "\<not> is_word d \<Longrightarrow> f \<noteq> [] \<Longrightarrow> is_word (hd f) \<Longrightarrow>
     drop_filler f w (d # s) = d # drop_filler f False s"
proof -
  assume d: "\<not> is_word d" and f: "f \<noteq> []" "is_word (hd f)"
  then obtain a g where ag: "f = a # g" "is_word a" by (cases f) auto
  with d have "\<not> tail_at f (d # s)" using ch_eq_word[of a d] by auto
  with d show ?thesis by (simp add: drop_filler.simps(2) filler_at_def)
qed

text \<open>After a removed occurrence the scan goes on at a boundary.\<close>

lemma drop_filler_after:
  assumes "r = [] \<or> \<not> is_word (hd r)" and "f \<noteq> []" and "is_word (hd f)"
  shows "drop_filler f w r = (case r of [] \<Rightarrow> [] | d # r' \<Rightarrow> d # drop_filler f False r')"
  using assms by (cases r) (simp_all add: drop_filler_nonword)

text \<open>
  The key step: when a pattern tail occurs in the text after the removals, it occurs in
  the text before them, since a removal leaves the end of the text or two characters in
  a row that are not word characters.
\<close>

lemma tail_at_drop_filler:
  assumes "f \<noteq> []" and "is_word (hd f)"
  shows "ok_tail b g \<Longrightarrow> tail_at g (drop_filler f b s) \<Longrightarrow> tail_at g s"
proof (induction g arbitrary: b s)
  case Nil
  then have b: "b" by simp
  from Nil(2) show ?case unfolding b[THEN eqTrueI] drop_filler_word
    by (cases s) simp_all
next
  case (Cons a g)
  from Cons.prems(1) have ba: "b \<or> is_word a" and ok: "ok_tail (is_word a) g" by simp_all
  show ?case
  proof (cases s)
    case Nil
    with Cons.prems(2) show ?thesis by simp
  next
    case (Cons c s')
    show ?thesis
    proof (cases "filler_at f b (c # s')")
      case True
      then have nb: "\<not> b" and t: "tail_at f (c # s')" by (simp_all add: filler_at_def)
      let ?r = "drop (length f) (c # s')"
      from tail_at_rest[OF t] have r: "?r = [] \<or> \<not> is_word (hd ?r)" .
      have out: "drop_filler f b s = drop_filler f True ?r"
        using True assms(1) Cons by (simp add: drop_filler.simps(2))
      show ?thesis
      proof (cases ?r)
        case Nil
        with out Cons.prems(2) show ?thesis by simp
      next
        case (Cons d r')
        with r have d: "\<not> is_word d" by simp
        from out Cons have "drop_filler f b s = d # drop_filler f (is_word d) r'"
          by (simp add: drop_filler_word)
        with Cons.prems(2) have "ch_eq True a d" by simp
        then have "is_word a = is_word d" using ch_eq_word by metis
        with d ba nb show ?thesis by simp
      qed
    next
      case False
      then have out: "drop_filler f b s = c # drop_filler f (is_word c) s'"
        using Cons by (simp add: drop_filler.simps(2))
      with Cons.prems(2) have ac: "ch_eq True a c" and t: "tail_at g (drop_filler f (is_word c) s')"
        by simp_all
      from ac have "is_word c = is_word a" by (rule ch_eq_word)
      with t have "tail_at g (drop_filler f (is_word a) s')" by simp
      from Cons.IH[OF ok this] ac Cons show ?thesis by simp
    qed
  qed
qed

lemma filler_at_drop_filler:
  assumes "f \<noteq> []" and "is_word (hd f)" and "plain_filler g"
    and "filler_at g w (c # drop_filler f (is_word c) s)"
  shows "filler_at g w (c # s)"
proof -
  from assms(3) obtain a h where g: "g = a # h" "is_word a" "ok_tail True h"
    by (cases g) (auto simp: plain_filler_def)
  from assms(4) g have w: "\<not> w" and ac: "ch_eq True a c"
    and t: "tail_at h (drop_filler f (is_word c) s)"
    by (simp_all add: filler_at_def)
  from ac g(2) have "is_word c" using ch_eq_word by metis
  with t have "tail_at h (drop_filler f True s)" by simp
  from tail_at_drop_filler[OF assms(1,2) g(3) this] w ac g(1) show ?thesis
    by (simp add: filler_at_def)
qed

lemma filler_free_suffix: "filler_free g w (u @ d # v) \<Longrightarrow> filler_free g (is_word d) v"
  by (induction u arbitrary: w) auto

text \<open>Removing one filler leaves none of it, and brings in no occurrence of another.\<close>

lemma filler_free_drop_filler:
  assumes f: "plain_filler f" and g: "plain_filler g"
  shows "g = f \<or> filler_free g w s \<Longrightarrow> filler_free g w (drop_filler f w s)"
proof (induction s arbitrary: w rule: length_induct)
  case (1 s)
  from f have f1: "f \<noteq> []" and f2: "is_word (hd f)" by (simp_all add: plain_filler_def)
  from g obtain a h where gh: "g = a # h" "is_word a"
    by (cases g) (auto simp: plain_filler_def)
  have nw: "\<not> filler_at g w' (d # X)" if "\<not> is_word d" for w' d X
    using that gh ch_eq_word[of a d] by (auto simp: filler_at_def)
  show ?case
  proof (cases s)
    case Nil
    then show ?thesis by simp
  next
    case (Cons c s')
    show ?thesis
    proof (cases "filler_at f w (c # s')")
      case True
      let ?r = "drop (length f) (c # s')"
      from True have t: "tail_at f (c # s')" by (simp add: filler_at_def)
      from tail_at_rest[OF t] have r: "?r = [] \<or> \<not> is_word (hd ?r)" .
      have out: "drop_filler f w s = drop_filler f True ?r"
        using True f1 Cons by (simp add: drop_filler.simps(2))
      show ?thesis
      proof (cases ?r)
        case Nil
        with out show ?thesis by simp
      next
        case (Cons d r')
        with r have d: "\<not> is_word d" by simp
        have out': "drop_filler f w s = d # drop_filler f False r'"
          using out Cons d by (simp add: drop_filler_word)
        have split: "s = take (length f) s @ d # r'"
          using Cons \<open>s = c # s'\<close> by (metis append_take_drop_id)
        then have len: "length r' < length s"
          by (metis add_Suc_right length_Cons length_append less_add_Suc2)
        have pre: "g = f \<or> filler_free g False r'"
        proof (cases "g = f")
          case False
          with 1(2) have "filler_free g w s" by simp
          then have "filler_free g w (take (length f) s @ d # r')" using split by simp
          from filler_free_suffix[OF this] d show ?thesis by simp
        qed simp
        from 1(1) len pre have "filler_free g False (drop_filler f False r')" by blast
        with out' d nw show ?thesis by simp
      qed
    next
      case False
      then have out: "drop_filler f w s = c # drop_filler f (is_word c) s'"
        using Cons by (simp add: drop_filler.simps(2))
      have pre: "g = f \<or> filler_free g (is_word c) s'"
        using 1(2) Cons by auto
      have "length s' < length s" using Cons by simp
      with 1(1) pre have rest: "filler_free g (is_word c) (drop_filler f (is_word c) s')"
        by blast
      have "\<not> filler_at g w (c # drop_filler f (is_word c) s')"
      proof
        assume "filler_at g w (c # drop_filler f (is_word c) s')"
        from filler_at_drop_filler[OF f1 f2 g this] have here: "filler_at g w (c # s')" .
        from 1(2) show False
        proof
          assume "g = f"
          with here False show False by simp
        next
          assume "filler_free g w s"
          with here Cons show False by simp
        qed
      qed
      with out rest show ?thesis by simp
    qed
  qed
qed

lemma drop_filler_free: "filler_free f w s \<Longrightarrow> drop_filler f w s = s"
  by (induction s arbitrary: w) (simp_all add: drop_filler.simps(2))

lemma filler_free_dropWhile:
  "plain_filler g \<Longrightarrow> filler_free g False s \<Longrightarrow> filler_free g False (dropWhile is_space s)"
  by (induction s) (auto dest: space_not_word)

lemma tail_at_append:
  "tail_at g s \<Longrightarrow> list_all (\<lambda>c. \<not> is_word c) v \<Longrightarrow> tail_at g (s @ v)"
  by (induction g s rule: tail_at.induct) (auto, (cases v; simp)+)

lemma filler_free_prefix:
  "list_all (\<lambda>c. \<not> is_word c) v \<Longrightarrow> filler_free g w (u @ v) \<Longrightarrow> filler_free g w u"
proof (induction u arbitrary: w)
  case Nil
  then show ?case by simp
next
  case (Cons c u)
  from Cons.prems(2) have 1: "\<not> filler_at g w (c # u @ v)" and 2: "filler_free g (is_word c) (u @ v)"
    by simp_all
  have "\<not> filler_at g w (c # u)"
  proof
    assume "filler_at g w (c # u)"
    then have "filler_at g w ((c # u) @ v)"
      using tail_at_append[OF _ Cons.prems(1), of g "c # u"] by (simp add: filler_at_def)
    with 1 show False by simp
  qed
  with Cons.IH[OF Cons.prems(1) 2] show ?case by simp
qed

lemma filler_free_strip:
  assumes "plain_filler g" and "filler_free g False s"
  shows "filler_free g False (strip s)"
proof -
  let ?u = "dropWhile is_space s"
  let ?v = "rev (takeWhile is_space (rev ?u))"
  have u: "filler_free g False ?u" using assms by (rule filler_free_dropWhile)
  have "rev ?u = takeWhile is_space (rev ?u) @ dropWhile is_space (rev ?u)" by simp
  then have dec: "?u = strip s @ ?v"
    unfolding strip_def by (metis rev_append rev_rev_ident)
  have "list_all is_space (takeWhile is_space (rev ?u))"
    by (simp add: list_all_iff) (metis set_takeWhileD)
  then have "list_all (\<lambda>c. \<not> is_word c) ?v"
    by (auto simp: list_all_iff dest: space_not_word)
  from filler_free_prefix[OF this, of g False "strip s"] u dec show ?thesis by simp
qed

lemma tail_at_ci_prefix:
  "tail_at g s = (ci_prefix g s \<and> (case drop (length g) s of [] \<Rightarrow> True | d # _ \<Rightarrow> \<not> is_word d))"
  by (induction g s rule: tail_at.induct) auto

lemma ci_prefix_length: "ci_prefix g s \<Longrightarrow> length g \<le> length s"
  by (induction g s rule: ci_prefix.induct) auto

lemma ci_prefix_last:
  "ci_prefix g s \<Longrightarrow> g \<noteq> [] \<Longrightarrow> is_word (s ! (length g - 1)) = is_word (last g)"
proof (induction g s rule: ci_prefix.induct)
  case (3 a g c s)
  then show ?case by (cases g) (auto dest: ch_eq_word)
qed simp_all

lemma rmatch_lits:
  "rmatch True (lits f) (p, s) =
     (if ci_prefix f s
      then [(if f = [] then p else Some (s ! (length f - 1)), drop (length f) s)]
      else [])"
proof (induction f arbitrary: p s rule: lits.induct)
  case 1
  then show ?case by simp
next
  case (2 c)
  then show ?case by (cases s) auto
next
  case (3 c v va)
  show ?case
  proof (cases s)
    case Nil
    then show ?thesis by simp
  next
    case (Cons d s')
    with 3[of "Some d" s'] show ?thesis by auto
  qed
qed

lemma ok_tail_last: "ok_tail b g \<Longrightarrow> g \<noteq> [] \<Longrightarrow> is_word (last g)"
  by (induction g arbitrary: b) (auto split: if_splits)

lemma rmatch_filler_pattern:
  assumes "plain_filler f"
  shows "rmatch True (filler_pattern f) (p, s) =
     (if filler_at f (wordy p) s then [(Some (s ! (length f - 1)), drop (length f) s)] else [])"
proof (cases "ci_prefix f s")
  case False
  then show ?thesis
    by (simp add: filler_pattern_def rmatch_lits filler_at_def tail_at_ci_prefix)
next
  case True
  from assms obtain a g where f: "f = a # g" "is_word a" and ne: "f \<noteq> []" and ok: "ok_tail True f"
    by (cases f) (auto simp: plain_filler_def)
  from True f obtain c s' where s: "s = c # s'" "ch_eq True a c" by (cases s) auto
  then have c: "is_word c" using f(2) ch_eq_word by metis
  have l: "is_word (s ! (length f - 1))"
    using ci_prefix_last[OF True ne] ok_tail_last[OF ok ne] by simp
  have b1: "at_boundary (p, s) = (\<not> wordy p)"
    using s c by (simp add: at_boundary_def wordy_def)
  have b2: "at_boundary (Some (s ! (length f - 1)), drop (length f) s)
      = (case drop (length f) s of [] \<Rightarrow> True | d # _ \<Rightarrow> \<not> is_word d)"
    using l by (simp add: at_boundary_def split: list.splits)
  show ?thesis
    using True ne b1 b2
    by (simp add: filler_pattern_def rmatch_lits filler_at_def tail_at_ci_prefix)
qed

lemma re_sub_filler:
  assumes "plain_filler f"
  shows "re_sub_from True (filler_pattern f) [] m (p, s) = drop_filler f (wordy p) s"
proof (induction s arbitrary: m p rule: length_induct)
  case (1 s)
  from assms have ne: "f \<noteq> []" and ok: "ok_tail True f" by (simp_all add: plain_filler_def)
  show ?case
  proof (cases "filler_at f (wordy p) s")
    case True
    then have t: "tail_at f s" by (simp add: filler_at_def)
    then have cp: "ci_prefix f s" by (simp add: tail_at_ci_prefix)
    from tail_at_length[OF t] ne obtain c s' where s: "s = c # s'" by (cases s) auto
    let ?q = "Some (s ! (length f - 1))"
    let ?r = "drop (length f) s"
    have len: "length ?r < length s" using ne s by simp
    have wq: "wordy ?q" using ci_prefix_last[OF cp ne] ok_tail_last[OF ok ne] by (simp add: wordy_def)
    have fm: "first_match True (filler_pattern f) m (p, s) = Some (?q, ?r)"
      using True len by (simp add: first_match_def rmatch_filler_pattern[OF assms])
    from 1 len have "re_sub_from True (filler_pattern f) [] False (?q, ?r) = drop_filler f (wordy ?q) ?r"
      by blast
    with wq have ih: "re_sub_from True (filler_pattern f) [] False (?q, ?r) = drop_filler f True ?r"
      by simp
    have "re_sub_from True (filler_pattern f) [] m (p, s)
        = re_sub_from True (filler_pattern f) [] False (?q, ?r)"
      using fm len by (subst re_sub_from.simps) simp
    also have "\<dots> = drop_filler f True ?r" by (rule ih)
    also have "\<dots> = drop_filler f (wordy p) s"
      using True ne s by (simp add: drop_filler.simps(2))
    finally show ?thesis .
  next
    case False
    then have fm: "first_match True (filler_pattern f) m (p, s) = None"
      by (simp add: first_match_def rmatch_filler_pattern[OF assms])
    show ?thesis
    proof (cases s)
      case Nil
      with fm show ?thesis by (subst re_sub_from.simps) simp
    next
      case (Cons c s')
      with 1 have "re_sub_from True (filler_pattern f) [] False (Some c, s')
          = drop_filler f (wordy (Some c)) s'" by simp
      then have ih: "re_sub_from True (filler_pattern f) [] False (Some c, s')
          = drop_filler f (is_word c) s'" by (simp add: wordy_def)
      have "re_sub_from True (filler_pattern f) [] m (p, s)
          = c # re_sub_from True (filler_pattern f) [] False (Some c, s')"
        using fm Cons by (subst re_sub_from.simps) simp
      with ih False Cons show ?thesis by (simp add: drop_filler.simps(2))
    qed
  qed
qed

lemma re_sub_filler_top:
  "plain_filler f \<Longrightarrow> re_sub True (filler_pattern f) [] s = drop_filler f False s"
  by (simp add: re_sub_def re_sub_filler wordy_def)

lemma remove_all_free:
  "list_all plain_filler fs \<Longrightarrow> list_all plain_filler gs \<Longrightarrow>
   list_all (\<lambda>g. filler_free g False t) gs \<Longrightarrow>
   list_all (\<lambda>g. filler_free g False (remove_all fs t)) (gs @ fs)"
proof (induction fs arbitrary: t gs)
  case Nil
  then show ?case by (simp add: remove_all_def)
next
  case (Cons f fs)
  from Cons.prems(1) have pf: "plain_filler f" and pfs: "list_all plain_filler fs" by simp_all
  let ?t1 = "re_sub True (filler_pattern f) [] t"
  have t1: "?t1 = drop_filler f False t" using pf by (rule re_sub_filler_top)
  have a: "filler_free f False ?t1"
    unfolding t1 using filler_free_drop_filler[OF pf pf, of False t] by simp
  have b: "list_all (\<lambda>g. filler_free g False ?t1) gs"
    unfolding t1 using Cons.prems(2,3) filler_free_drop_filler[OF pf]
    by (auto simp: list_all_iff)
  from Cons.IH[OF pfs, of "gs @ [f]" ?t1] Cons.prems(2) pf a b
  have "list_all (\<lambda>g. filler_free g False (remove_all fs ?t1)) ((gs @ [f]) @ fs)"
    by simp
  then show ?case by (simp add: remove_all_def)
qed

lemma remove_all_id:
  "list_all plain_filler fs \<Longrightarrow> list_all (\<lambda>g. filler_free g False t) fs \<Longrightarrow> remove_all fs t = t"
proof (induction fs)
  case Nil
  then show ?case by (simp add: remove_all_def)
next
  case (Cons f fs)
  then have "re_sub True (filler_pattern f) [] t = t"
    by (simp add: re_sub_filler_top drop_filler_free)
  with Cons show ?case by (simp add: remove_all_def)
qed

lemma remove_all_strip_idem:
  assumes "list_all plain_filler fs"
  shows "strip (remove_all fs (strip (remove_all fs x))) = strip (remove_all fs x)"
proof -
  let ?y = "remove_all fs x"
  from remove_all_free[OF assms, of "[]" x] have "list_all (\<lambda>g. filler_free g False ?y) fs"
    by simp
  with assms have "list_all (\<lambda>g. filler_free g False (strip ?y)) fs"
    by (auto simp: list_all_iff intro: filler_free_strip)
  with assms have "remove_all fs (strip ?y) = strip ?y" by (rule remove_all_id)
  then show ?thesis by (simp add: strip_idem)
qed

text \<open>
  Claim C3, as the code has it: under every configuration of the two toggles except both
  enabled, cleaning twice is cleaning once. That is: with filler removal disabled,
  whitespace normalisation on or off; and with filler removal enabled and whitespace
  normalisation disabled, for fillers that are words separated by single spaces, as the
  configured ones are.
\<close>

theorem clean_transcript_idempotent:
  assumes "\<not> (normalize_whitespace cfg \<and> remove_fillers cfg)"
    and "remove_fillers cfg \<longrightarrow> list_all plain_filler (filler_words cfg)"
  shows "clean_transcript cfg (clean_transcript cfg x) = clean_transcript cfg x"
proof (cases "remove_fillers cfg")
  case True
  with assms have nw: "\<not> normalize_whitespace cfg"
    and pl: "list_all plain_filler (filler_words cfg)" by simp_all
  have c: "clean_transcript cfg y = strip (remove_all (filler_words cfg) y)" for y
    using True nw by (simp add: clean_transcript_def remove_all_def)
  show ?thesis unfolding c using pl by (rule remove_all_strip_idem)
next
  case nf: False
  show ?thesis
  proof (cases "normalize_whitespace cfg")
    case True
    have c: "clean_transcript cfg y = strip (collapse y)" for y
      using True nf by (simp add: clean_transcript_def re_sub_def re_sub_blank_run)
    have "norm_ws (strip (collapse x))" by (intro norm_ws_strip norm_ws_collapse)
    then have "collapse (strip (collapse x)) = strip (collapse x)" by (rule collapse_norm_ws)
    then show ?thesis by (simp add: c strip_idem)
  next
    case False
    with nf show ?thesis by (simp add: clean_transcript_def strip_idem)
  qed
qed

lemma shipped_fillers_plain: "list_all plain_filler (filler_words CONFIG)"
  by code_simp

theorem clean_transcript_idempotent_witness:
  "\<not> (normalize_whitespace CONFIG \<and> remove_fillers CONFIG) \<and> \<not> remove_fillers CONFIG \<and>
   clean_transcript CONFIG ''  Doctor:   hello  '' = ''Doctor: hello'' \<and>
   clean_transcript CONFIG (clean_transcript CONFIG ''  Doctor:   hello  '')
     = clean_transcript CONFIG ''  Doctor:   hello  '' \<and>
   \<not> normalize_whitespace (CONFIG\<lparr>normalize_whitespace := False, remove_fillers := True\<rparr>) \<and>
   remove_fillers (CONFIG\<lparr>normalize_whitespace := False, remove_fillers := True\<rparr>) \<and>
   list_all plain_filler
     (filler_words (CONFIG\<lparr>normalize_whitespace := False, remove_fillers := True\<rparr>)) \<and>
   clean_transcript (CONFIG\<lparr>normalize_whitespace := False, remove_fillers := True\<rparr>)
     ''Well, you know  it hurts'' = '',   it hurts'' \<and>
   clean_transcript (CONFIG\<lparr>normalize_whitespace := False, remove_fillers := True\<rparr>)
     (clean_transcript (CONFIG\<lparr>normalize_whitespace := False, remove_fillers := True\<rparr>)
        ''Well, you know  it hurts'')
     = clean_transcript (CONFIG\<lparr>normalize_whitespace := False, remove_fillers := True\<rparr>)
         ''Well, you know  it hurts''"
proof -
  let ?cfg = "CONFIG\<lparr>normalize_whitespace := False, remove_fillers := True\<rparr>"
  have nf: "\<not> remove_fillers CONFIG" by (simp add: CONFIG_def)
  have ev: "clean_transcript CONFIG ''  Doctor:   hello  '' = ''Doctor: hello''" by code_simp
  have nw2: "\<not> normalize_whitespace ?cfg" and rf2: "remove_fillers ?cfg" by simp_all
  have pl: "list_all plain_filler (filler_words ?cfg)" using shipped_fillers_plain by simp
  have ev2: "clean_transcript ?cfg ''Well, you know  it hurts'' = '',   it hurts''" by code_simp
  have i1: "clean_transcript CONFIG (clean_transcript CONFIG ''  Doctor:   hello  '')
     = clean_transcript CONFIG ''  Doctor:   hello  ''"
    using clean_transcript_idempotent[of CONFIG "''  Doctor:   hello  ''"] nf by simp
  have i2: "clean_transcript ?cfg (clean_transcript ?cfg ''Well, you know  it hurts'')
     = clean_transcript ?cfg ''Well, you know  it hurts''"
    using clean_transcript_idempotent[of ?cfg "''Well, you know  it hurts''"] nw2 pl by simp
  from nf ev nw2 rf2 pl ev2 i1 i2 show ?thesis by simp
qed

text \<open>
  Claim C3 as stated fails with both toggles on: removing the filler leaves two spaces,
  which the second pass collapses.
\<close>

theorem clean_transcript_fillers_not_idempotent:
  "clean_transcript (CONFIG\<lparr>remove_fillers := True\<rparr>) ''a um b'' = ''a  b'' \<and>
   clean_transcript (CONFIG\<lparr>remove_fillers := True\<rparr>)
     (clean_transcript (CONFIG\<lparr>remove_fillers := True\<rparr>) ''a um b'') = ''a b''"
  by code_simp

section \<open>Categorisation\<close>

lemma find_category_find:
  "find_category cats (upper (e_type ent)) = map_option fst (find (\<lambda>p. keyword_match (snd p) ent) cats)"
  by (induction cats) (auto simp: keyword_match_def)

lemma categorize_step_category:
  "categorize_step cfg ent d = dict_append (category_of cfg ent) ent d"
  by (simp add: categorize_step_def category_of_def find_category_find Let_def split: option.splits)

lemma category_of_key: "category_of cfg ent \<in> category_keys cfg"
  by (auto simp: category_of_def category_keys_def find_Some_iff split: option.splits)
    (metis fst_conv image_eqI nth_mem)

lemma keys_dict_set: "fst ` set (dict_set k v d) = insert k (fst ` set d)"
  by (induction d) (auto split: if_splits simp: rev_image_eqI)

lemma distinct_dict_set: "distinct (map fst d) \<Longrightarrow> distinct (map fst (dict_set k v d))"
  by (induction d) (auto simp: keys_dict_set)

lemma values_dict_set: "snd ` set (dict_set k v d) \<subseteq> insert v (snd ` set d)"
proof (induction d)
  case Nil
  then show ?case by simp
next
  case (Cons p d)
  show ?case
  proof (cases "fst p = k")
    case True
    then show ?thesis by (cases p) auto
  next
    case False
    with Cons show ?thesis by (cases p) (simp, blast)
  qed
qed

lemma fold_dict_set_empty:
  "fst ` set (fold (\<lambda>cat d. dict_set cat [] d) ks d) = set ks \<union> fst ` set d \<and>
   (distinct (map fst d) \<longrightarrow> distinct (map fst (fold (\<lambda>cat d. dict_set cat [] d) ks d))) \<and>
   (snd ` set d \<subseteq> {[]} \<longrightarrow> snd ` set (fold (\<lambda>cat d. dict_set cat [] d) ks d) \<subseteq> {[]})"
proof (induction ks arbitrary: d)
  case Nil
  then show ?case by simp
next
  case (Cons k ks)
  have "snd ` set d \<subseteq> {[]} \<Longrightarrow> snd ` set (dict_set k [] d) \<subseteq> {[]}"
    using values_dict_set[of k "[]" d] by blast
  with Cons.IH[of "dict_set k [] d"] show ?case
    by (auto simp: keys_dict_set distinct_dict_set)
qed

lemma empty_categories_props:
  "fst ` set (empty_categories cfg) = category_keys cfg"
  "distinct (map fst (empty_categories cfg))"
  "snd ` set (empty_categories cfg) \<subseteq> {[]}"
proof -
  let ?d = "fold (\<lambda>cat d. dict_set cat [] d) (map fst (entity_categories cfg)) []"
  from fold_dict_set_empty[of "map fst (entity_categories cfg)" "[]"]
  have k: "fst ` set ?d = fst ` set (entity_categories cfg)" and d: "distinct (map fst ?d)"
    and v: "snd ` set ?d \<subseteq> {[]}"
    by auto
  show "fst ` set (empty_categories cfg) = category_keys cfg"
    by (simp add: empty_categories_def keys_dict_set k category_keys_def)
  show "distinct (map fst (empty_categories cfg))"
    by (simp add: empty_categories_def distinct_dict_set d)
  show "snd ` set (empty_categories cfg) \<subseteq> {[]}"
    using values_dict_set[of "entity_default_category cfg" "[]" ?d] v
    by (auto simp: empty_categories_def)
qed

lemma keys_dict_append: "map fst (dict_append k x d) = map fst d"
  by (induction d) auto

lemma map_of_dict_append:
  "map_of (dict_append k x d) c =
     (if c = k then map_option (\<lambda>xs. xs @ [x]) (map_of d k) else map_of d c)"
  by (induction d) auto

lemma total_dict_append:
  "k \<in> fst ` set d \<Longrightarrow>
     sum_list (map (\<lambda>p. length (snd p)) (dict_append k x d)) = Suc (sum_list (map (\<lambda>p. length (snd p)) d))"
  by (induction d) (auto simp: rev_image_eqI)

lemma fold_categorize:
  "map fst (fold (categorize_step cfg) es d) = map fst d \<and>
   map_of (fold (categorize_step cfg) es d) c
     = map_option (\<lambda>xs. xs @ filter (\<lambda>e. category_of cfg e = c) es) (map_of d c) \<and>
   (category_keys cfg \<subseteq> fst ` set d \<longrightarrow>
      sum_list (map (\<lambda>p. length (snd p)) (fold (categorize_step cfg) es d))
        = sum_list (map (\<lambda>p. length (snd p)) d) + length es)"
proof (induction es arbitrary: d)
  case Nil
  then show ?case by (simp add: option.map_ident)
next
  case (Cons e es)
  let ?d1 = "dict_append (category_of cfg e) e d"
  have keys1: "map fst ?d1 = map fst d" by (rule keys_dict_append)
  then have keyset1: "fst ` set ?d1 = fst ` set d" by (metis list.set_map)
  have tot: "category_keys cfg \<subseteq> fst ` set d \<Longrightarrow>
      sum_list (map (\<lambda>p. length (snd p)) ?d1) = Suc (sum_list (map (\<lambda>p. length (snd p)) d))"
    using category_of_key[of cfg e] by (intro total_dict_append) blast
  from Cons.IH[of ?d1] keys1 keyset1 tot show ?case
    by (cases "map_of d c") (auto simp: categorize_step_category map_of_dict_append)
qed

lemma sum_all_empty: "snd ` set d \<subseteq> {[]} \<Longrightarrow> sum_list (map (\<lambda>p. length (snd p)) d) = 0"
  by (induction d) auto

lemma map_of_empty_categories:
  "map_of (empty_categories cfg) c = (if c \<in> category_keys cfg then Some [] else None)"
proof (cases "c \<in> category_keys cfg")
  case True
  then obtain v where "(c, v) \<in> set (empty_categories cfg)"
    using empty_categories_props(1)[of cfg] by force
  moreover from this have "v = []" using empty_categories_props(3)[of cfg] by force
  ultimately show ?thesis using True empty_categories_props(2)[of cfg] by simp
next
  case False
  then show ?thesis using empty_categories_props(1)[of cfg]
    by (simp add: map_of_eq_None_iff)
qed

text \<open>
  Claim C4, as the code has it: the output mapping has exactly the configured category
  keys and the catch-all, each once; the list at a key is the entities of that category
  in their order, where the category of an entity is the first configured category one of
  whose keywords, upper-cased, is a substring of the upper-cased type label, and the
  catch-all when there is none; so the lengths of the lists add up to the length of the
  input.
\<close>

theorem categorize_entities_partition:
  "fst ` set (categorize_entities cfg entities) = category_keys cfg \<and>
   distinct (map fst (categorize_entities cfg entities)) \<and>
   (\<forall>c. map_of (categorize_entities cfg entities) c =
        (if c \<in> category_keys cfg then Some (filter (\<lambda>e. category_of cfg e = c) entities)
         else None)) \<and>
   sum_list (map (\<lambda>p. length (snd p)) (categorize_entities cfg entities)) = length entities \<and>
   (\<forall>e. category_of cfg e \<in> category_keys cfg)"
proof -
  let ?d0 = "empty_categories cfg"
  have keys: "map fst (categorize_entities cfg entities) = map fst ?d0"
    using fold_categorize[of cfg entities ?d0] by (simp add: categorize_entities_def)
  then have 1: "fst ` set (categorize_entities cfg entities) = category_keys cfg"
    using empty_categories_props(1)[of cfg] by (metis list.set_map)
  have 2: "distinct (map fst (categorize_entities cfg entities))"
    using keys empty_categories_props(2)[of cfg] by simp
  have 3: "map_of (categorize_entities cfg entities) c =
        (if c \<in> category_keys cfg then Some (filter (\<lambda>e. category_of cfg e = c) entities)
         else None)" for c
    using fold_categorize[of cfg entities ?d0 c]
    by (simp add: categorize_entities_def map_of_empty_categories)
  have "category_keys cfg \<subseteq> fst ` set ?d0" using empty_categories_props(1)[of cfg] by simp
  then have 4: "sum_list (map (\<lambda>p. length (snd p)) (categorize_entities cfg entities)) = length entities"
    using fold_categorize[of cfg entities ?d0] sum_all_empty[OF empty_categories_props(3)[of cfg]]
    by (simp add: categorize_entities_def)
  from 1 2 3 4 category_of_key show ?thesis by blast
qed

text \<open>
  Claim C4 as stated fails for a keyword that is not upper-case: \<open>symptom\<close> is not a
  substring of the upper-cased label \<open>SYMPTOM\<close>, and the entity is placed under that
  keyword's category, not under the catch-all.
\<close>

theorem categorize_entities_lowercase_keyword:
  "\<not> sublist ''symptom'' (upper ''SYMPTOM'') \<and>
   categorize_entities (CONFIG\<lparr>entity_categories := [(''symptoms'', [''symptom''])]\<rparr>)
     [\<lparr> e_text = ''fever'', e_type = ''SYMPTOM'', e_confidence = 1, e_start = 0, e_end = 5 \<rparr>]
   = [(''symptoms'',
        [\<lparr> e_text = ''fever'', e_type = ''SYMPTOM'', e_confidence = 1, e_start = 0, e_end = 5 \<rparr>]),
      (''other'', [])]"
  by code_simp

section \<open>Sentiment and intent\<close>

lemma full_text_split [simp]: "full_text (split_speakers cfg t) = t"
  by (simp add: split_speakers_def split: prod.splits)

lemma validate_transcript_iff:
  "validate_transcript sp \<longleftrightarrow> doctor sp \<noteq> [] \<and> patient sp \<noteq> [] \<and> 50 \<le> length (full_text sp)"
  by (simp add: validate_transcript_def)

lemma intent_result:
  "intent_labels cfg \<noteq> [] \<Longrightarrow>
   \<exists>intent. analyze_intent_with_gemini col cfg us = Inr intent \<and> intent \<in> set (intent_labels cfg) \<and>
     (let response = strip (generate_intent col us) in
        (response \<in> set (intent_labels cfg) \<longrightarrow> intent = response) \<and>
        (response \<notin> set (intent_labels cfg) \<longrightarrow>
           (case find (\<lambda>l. sublist (lower l) (lower response)) (intent_labels cfg) of
              Some l \<Rightarrow> intent = l
            | None \<Rightarrow> intent = hd (intent_labels cfg))))"
proof -
  assume ne: "intent_labels cfg \<noteq> []"
  let ?r = "strip (generate_intent col us)"
  show ?thesis
  proof (cases "?r \<in> set (intent_labels cfg)")
    case True
    then show ?thesis by (simp add: analyze_intent_with_gemini_def Let_def)
  next
    case False
    show ?thesis
    proof (cases "find (\<lambda>l. sublist (lower l) (lower ?r)) (intent_labels cfg)")
      case None
      with False ne show ?thesis
        by (cases "intent_labels cfg") (simp_all add: analyze_intent_with_gemini_def Let_def)
    next
      case (Some l)
      then have "l \<in> set (intent_labels cfg)"
        by (auto simp: find_Some_iff)
      with False Some show ?thesis
        by (simp add: analyze_intent_with_gemini_def Let_def)
    qed
  qed
qed

lemma sentiment_intent_nonempty:
  assumes "patient_utterances \<noteq> []" and "intent_labels cfg \<noteq> []"
  shows "\<exists>intent. analyze_sentiment_intent col cfg patient_utterances
        = Inr [(''Sentiment'', JStr (analyze_sentiment_with_distilbert col cfg (join_space patient_utterances))),
               (''Intent'', JStr intent)]"
proof -
  from intent_result[OF assms(2), of col patient_utterances] obtain intent where
    "analyze_intent_with_gemini col cfg patient_utterances = Inr intent" by blast
  then show ?thesis using assms(1) by (simp add: analyze_sentiment_intent_def Let_def)
qed

text \<open>
  Claim C8, as the code has it: for a non-empty list of patient utterances (and a
  non-empty label vocabulary) the result holds a Sentiment and an Intent, and the Intent
  is a configured label: the trimmed reply when it is a label; otherwise the first label,
  in configured order, whose lower-case form occurs in the lower-cased reply; otherwise
  the first configured label.
\<close>

theorem intent_in_vocabulary:
  assumes "patient_utterances \<noteq> []" and "intent_labels cfg \<noteq> []"
  shows "\<exists>sentiment intent.
      analyze_sentiment_intent col cfg patient_utterances
        = Inr [(''Sentiment'', JStr sentiment), (''Intent'', JStr intent)] \<and>
      intent \<in> set (intent_labels cfg) \<and>
      (let response = strip (generate_intent col patient_utterances) in
         (response \<in> set (intent_labels cfg) \<longrightarrow> intent = response) \<and>
         (response \<notin> set (intent_labels cfg) \<longrightarrow>
            (case find (\<lambda>l. sublist (lower l) (lower response)) (intent_labels cfg) of
               Some l \<Rightarrow> intent = l
             | None \<Rightarrow> intent = hd (intent_labels cfg))))"
proof -
  from intent_result[OF assms(2), of col patient_utterances] obtain intent where
    i: "analyze_intent_with_gemini col cfg patient_utterances = Inr intent"
       "intent \<in> set (intent_labels cfg)"
       "(let response = strip (generate_intent col patient_utterances) in
         (response \<in> set (intent_labels cfg) \<longrightarrow> intent = response) \<and>
         (response \<notin> set (intent_labels cfg) \<longrightarrow>
            (case find (\<lambda>l. sublist (lower l) (lower response)) (intent_labels cfg) of
               Some l \<Rightarrow> intent = l
             | None \<Rightarrow> intent = hd (intent_labels cfg))))"
    by blast
  have "analyze_sentiment_intent col cfg patient_utterances
        = Inr [(''Sentiment'', JStr (analyze_sentiment_with_distilbert col cfg (join_space patient_utterances))),
               (''Intent'', JStr intent)]"
    using assms(1) i(1) by (simp add: analyze_sentiment_intent_def Let_def)
  with i(2,3) show ?thesis by blast
qed

lemma demo_intent:
  "strip (generate_intent demo_collaborators [''I have had a headache since Monday.''])
     = ''I think the patient is reporting symptoms.''"
  unfolding demo_collaborators_def by code_simp

lemma demo_find:
  "find (\<lambda>l. sublist (lower l) (lower ''I think the patient is reporting symptoms.'')) (intent_labels CONFIG)
    = Some ''Reporting symptoms''"
  by code_simp

theorem intent_in_vocabulary_witness:
  "[''I have had a headache since Monday.''] \<noteq> [] \<and> intent_labels CONFIG \<noteq> [] \<and>
   (\<exists>sentiment.
      analyze_sentiment_intent demo_collaborators CONFIG [''I have had a headache since Monday.'']
        = Inr [(''Sentiment'', JStr sentiment), (''Intent'', JStr ''Reporting symptoms'')])"
proof -
  have h1: "[''I have had a headache since Monday.''] \<noteq> []" by simp
  have h2: "intent_labels CONFIG \<noteq> []" by (simp add: CONFIG_def)
  have notin: "''I think the patient is reporting symptoms.'' \<notin> set (intent_labels CONFIG)"
    by (simp add: CONFIG_def)
  from intent_in_vocabulary[OF h1 h2, of demo_collaborators] obtain sentiment intent where
    r: "analyze_sentiment_intent demo_collaborators CONFIG [''I have had a headache since Monday.'']
        = Inr [(''Sentiment'', JStr sentiment), (''Intent'', JStr intent)]"
    and c: "(let response = strip (generate_intent demo_collaborators [''I have had a headache since Monday.'']) in
         (response \<in> set (intent_labels CONFIG) \<longrightarrow> intent = response) \<and>
         (response \<notin> set (intent_labels CONFIG) \<longrightarrow>
            (case find (\<lambda>l. sublist (lower l) (lower response)) (intent_labels CONFIG) of
               Some l \<Rightarrow> intent = l
             | None \<Rightarrow> intent = hd (intent_labels CONFIG))))"
    by blast
  from c notin have "intent = ''Reporting symptoms''"
    unfolding demo_intent Let_def demo_find by simp
  with r h1 h2 show ?thesis by blast
qed

text \<open>
  Claim C8 as stated fails on the empty utterance list: the default record is returned,
  and its Intent \<open>Unknown\<close> is not a configured label.
\<close>

theorem intent_unknown_without_utterances:
  "analyze_sentiment_intent demo_collaborators CONFIG []
     = Inr [(''Sentiment'', JStr ''Neutral''), (''Intent'', JStr ''Unknown'')] \<and>
   ''Unknown'' \<notin> set (intent_labels CONFIG)"
  by (simp add: analyze_sentiment_intent_def sentiment_default_def CONFIG_def)

section \<open>The pipeline\<close>

lemma sentiment_intent_returns:
  "intent_labels cfg \<noteq> [] \<Longrightarrow> \<exists>si. analyze_sentiment_intent col cfg us = Inr si"
proof (cases "us = []")
  case True
  then show ?thesis by (simp add: analyze_sentiment_intent_def)
next
  case False
  assume "intent_labels cfg \<noteq> []"
  from sentiment_intent_nonempty[OF False this, of col] show ?thesis by blast
qed

lemma process_gate:
  assumes "read_file col path = Some raw"
  shows "\<not> validate_transcript (split_speakers cfg (clean_transcript cfg raw)) \<Longrightarrow>
           process col cfg path = Inl (ValueError ''Invalid transcript format'')"
    and "validate_transcript (split_speakers cfg (clean_transcript cfg raw)) \<Longrightarrow>
           intent_labels cfg \<noteq> [] \<Longrightarrow> save_outputs_ok col \<Longrightarrow>
           \<exists>res. process col cfg path = Inr res"
proof -
  let ?sp = "split_speakers cfg (clean_transcript cfg raw)"
  show "\<not> validate_transcript ?sp \<Longrightarrow> process col cfg path = Inl (ValueError ''Invalid transcript format'')"
    using assms by (simp add: process_def Let_def)
  assume v: "validate_transcript ?sp" and l: "intent_labels cfg \<noteq> []" and s: "save_outputs_ok col"
  from sentiment_intent_returns[OF l, of col "patient ?sp"] obtain si where
    "analyze_sentiment_intent col cfg (patient ?sp) = Inr si" by blast
  with assms v s show "\<exists>res. process col cfg path = Inr res"
    by (simp add: process_def Let_def)
qed

lemma process_Inr:
  assumes "process col cfg path = Inr res"
  shows "\<exists>raw. read_file col path = Some raw \<and>
     validate_transcript (split_speakers cfg (clean_transcript cfg raw)) \<and>
     all_entities res = extract_entities col (clean_transcript cfg raw) \<and>
     categorized res = categorize_entities cfg (all_entities res) \<and>
     res_statistics res = make_statistics col (all_entities res) (categorized res) \<and>
     medical_summary res
       = extract_medical_summary col cfg (clean_transcript cfg raw) (all_entities res) \<and>
     soap_note res
       = generate_soap_note col cfg (clean_transcript cfg raw) (all_entities res)
           (split_speakers cfg (clean_transcript cfg raw))"
proof (cases "read_file col path")
  case None
  with assms show ?thesis by (simp add: process_def)
next
  case (Some raw)
  let ?t = "clean_transcript cfg raw"
  let ?sp = "split_speakers cfg ?t"
  show ?thesis
  proof (cases "validate_transcript ?sp")
    case False
    with assms Some show ?thesis by (simp add: process_def Let_def)
  next
    case True
    show ?thesis
    proof (cases "analyze_sentiment_intent col cfg (patient ?sp)")
      case (Inl e)
      with assms Some True show ?thesis by (simp add: process_def Let_def)
    next
      case (Inr si)
      show ?thesis
      proof (cases "save_outputs_ok col")
        case False
        with assms Some True Inr show ?thesis by (simp add: process_def Let_def)
      next
        case sv: True
        from assms Some True Inr sv have
          "res = \<lparr> res_transcript_info =
                    \<lparr> source_file = path, timestamp = now_timestamp col,
                      processing_date = now_isoformat col, info_metadata = metadata ?sp \<rparr>,
                  all_entities = extract_entities col ?t,
                  categorized = categorize_entities cfg (extract_entities col ?t),
                  res_statistics = make_statistics col (extract_entities col ?t)
                                     (categorize_entities cfg (extract_entities col ?t)),
                  medical_summary = extract_medical_summary col cfg ?t (extract_entities col ?t),
                  sentiment_intent = si,
                  soap_note = generate_soap_note col cfg ?t (extract_entities col ?t) ?sp \<rparr>"
          by (simp add: process_def Let_def)
        with Some True show ?thesis by simp
      qed
    qed
  qed
qed

text \<open>
  Claim C7: \<open>validate_transcript\<close> returns false exactly when the doctor sequence is
  empty, or the patient sequence is empty, or the full text has fewer than 50 characters,
  and it is a total function. Once the file is read, \<open>process\<close> raises
  \<open>ValueError\<close> when validation fails; when validation succeeds (the label vocabulary
  non-empty and the outputs saved) it returns a result.
\<close>

theorem validate_transcript_gate:
  "(\<not> validate_transcript sp \<longleftrightarrow>
      doctor sp = [] \<or> patient sp = [] \<or> length (full_text sp) < 50) \<and>
   (read_file col path = Some raw \<longrightarrow>
      (\<not> validate_transcript (split_speakers cfg (clean_transcript cfg raw)) \<longrightarrow>
         process col cfg path = Inl (ValueError ''Invalid transcript format'')) \<and>
      (validate_transcript (split_speakers cfg (clean_transcript cfg raw)) \<and>
       intent_labels cfg \<noteq> [] \<and> save_outputs_ok col \<longrightarrow>
         (\<exists>res. process col cfg path = Inr res)))"
  using process_gate[of col path raw cfg]
  by (auto simp: validate_transcript_iff)

lemma demo_valid:
  "validate_transcript (split_speakers CONFIG (clean_transcript CONFIG demo_transcript))"
  unfolding demo_transcript_def by code_simp

lemma demo_short_invalid:
  "\<not> validate_transcript (split_speakers CONFIG (clean_transcript CONFIG ''Doctor: hi''))"
  by code_simp

theorem validate_transcript_gate_witness:
  "read_file demo_collaborators ''visit.txt'' = Some demo_transcript \<and>
   validate_transcript (split_speakers CONFIG (clean_transcript CONFIG demo_transcript)) \<and>
   intent_labels CONFIG \<noteq> [] \<and> save_outputs_ok demo_collaborators \<and>
   (\<exists>res. process demo_collaborators CONFIG ''visit.txt'' = Inr res) \<and>
   read_file demo_collaborators ''short.txt'' = Some ''Doctor: hi'' \<and>
   \<not> validate_transcript (split_speakers CONFIG (clean_transcript CONFIG ''Doctor: hi'')) \<and>
   process demo_collaborators CONFIG ''short.txt'' = Inl (ValueError ''Invalid transcript format'')"
proof -
  have r1: "read_file demo_collaborators ''visit.txt'' = Some demo_transcript"
    and r2: "read_file demo_collaborators ''short.txt'' = Some ''Doctor: hi''"
    and sv: "save_outputs_ok demo_collaborators"
    by (simp_all add: demo_collaborators_def)
  have l: "intent_labels CONFIG \<noteq> []" by (simp add: CONFIG_def)
  from validate_transcript_gate[of "split_speakers CONFIG demo_transcript" demo_collaborators
      "''visit.txt''" demo_transcript CONFIG]
    r1 demo_valid l sv
  have a: "\<exists>res. process demo_collaborators CONFIG ''visit.txt'' = Inr res" by blast
  from validate_transcript_gate[of "split_speakers CONFIG ''Doctor: hi''" demo_collaborators
      "''short.txt''" "''Doctor: hi''" CONFIG]
    r2 demo_short_invalid
  have b: "process demo_collaborators CONFIG ''short.txt'' = Inl (ValueError ''Invalid transcript format'')"
    by blast
  from r1 r2 sv l demo_valid demo_short_invalid a b show ?thesis by blast
qed

text \<open>
  The counts of the composite result: the total is the number of entities, the count of
  a category is the length of its list in the categorised view, and with no entity the
  average confidence is zero.
\<close>

lemma statistics_counts:
  assumes "process col cfg path = Inr res"
  shows "total (res_statistics res) = length (all_entities res) \<and>
     by_category (res_statistics res)
       = map (\<lambda>(cat, ent_list). (cat, length ent_list)) (categorized res) \<and>
     categorized res = categorize_entities cfg (all_entities res) \<and>
     (all_entities res = [] \<longrightarrow> average_confidence (res_statistics res) = 0)"
proof -
  from process_Inr[OF assms] have
    st: "res_statistics res = make_statistics col (all_entities res) (categorized res)"
    and cat: "categorized res = categorize_entities cfg (all_entities res)"
    by blast+
  show ?thesis unfolding st using cat by (simp add: make_statistics_def)
qed

section \<open>Keys outside the schemas\<close>






end
